theory Spec2Isabelle
  imports Main "HOL-Library.While_Combinator" "HOL-Library.List_Lexorder" "HOL-Library.Char_ord"
begin

section \<open>The Compilation core of lib/Compilation.js\<close>

text \<open>
  A shallow embedding of the parts of \<^verbatim>\<open>lib/Compilation.js\<close> that the properties below
  are about. JavaScript objects are shared by reference, so modules, chunks and slots are
  referred to by a reference (a natural number) wherever the code compares or mutates them
  through an alias. Collaborators that live outside this file (the methods of Module, the
  factories, the digest) are parameters of the functions that call them.
\<close>

type_synonym mref = nat

text \<open>
  Error objects. The constructors are the error classes the code creates;
  \<open>ModuleNotFoundError\<close> keeps the module, the cause and the references of the dependencies
  of the group. The code stamps an error object with \<^verbatim>\<open>origin\<close> and \<^verbatim>\<open>dependencies\<close> before it
  pushes it; a \<open>report\<close> is an error object with these two fields.
\<close>

datatype error =
  Error string
  | EntryModuleNotFoundError error
  | ModuleNotFoundError mref error "nat list"

record report =
  what :: error
  origin :: "mref option"
  dependencies :: "nat list option"

subsection \<open>ModuleStore: addModule\<close>

text \<open>
  The fields of a Module that \<^verbatim>\<open>addModule\<close> reads. \<^verbatim>\<open>module.identifier()\<close> is a method of
  Module; it is the field \<open>identifier\<close> here. The methods \<^verbatim>\<open>needRebuild\<close>,
  \<^verbatim>\<open>disconnect\<close> and \<^verbatim>\<open>unbuild\<close> are parameters (record \<open>module_methods\<close>).
\<close>

record module_obj =
  "identifier" :: string
  errors :: "report list"
  warnings :: "report list"

type_synonym timestamps = "string \<rightharpoonup> nat"

record module_methods =
  needRebuild :: "module_obj \<Rightarrow> timestamps \<Rightarrow> timestamps \<Rightarrow> bool"
  disconnect :: "module_obj \<Rightarrow> module_obj"
  unbuild :: "module_obj \<Rightarrow> module_obj"

text \<open>
  The part of the Compilation that \<^verbatim>\<open>addModule\<close> touches. \<open>heap\<close> holds the module
  objects; \<open>modules_map\<close> is \<^verbatim>\<open>this._modules\<close>, \<open>modules\<close> is \<^verbatim>\<open>this.modules\<close>,
  \<open>cache\<close> is \<^verbatim>\<open>this.cache\<close> (\<open>None\<close> when it is null), \<open>comp_errors\<close> and
  \<open>comp_warnings\<close> are \<^verbatim>\<open>this.errors\<close> and \<^verbatim>\<open>this.warnings\<close>.
\<close>

record store =
  heap :: "mref \<Rightarrow> module_obj"
  modules_map :: "string \<rightharpoonup> mref"
  modules :: "mref list"
  cache :: "(string \<rightharpoonup> mref) option"
  fileTimestamps :: "timestamps option"
  contextTimestamps :: "timestamps option"
  comp_errors :: "report list"
  comp_warnings :: "report list"

text \<open>The three-valued result: \<^verbatim>\<open>false\<close>, \<^verbatim>\<open>true\<close>, or a Module instance.\<close>

datatype addModule_result = RFalse | RTrue | RModule mref

text \<open>\<^verbatim>\<open>(cacheGroup || "m") + identifier\<close>: an absent or empty cacheGroup is falsy.\<close>

definition cacheName_of :: "string option \<Rightarrow> string \<Rightarrow> string" where
  "cacheName_of cacheGroup ident =
     (case cacheGroup of
        None \<Rightarrow> ''m''
      | Some g \<Rightarrow> (if g = [] then ''m'' else g)) @ ident"

text \<open>\<^verbatim>\<open>this.cache && this.cache[cacheName]\<close>\<close>

definition cache_lookup :: "store \<Rightarrow> string \<Rightarrow> mref option" where
  "cache_lookup c k = (case cache c of None \<Rightarrow> None | Some t \<Rightarrow> t k)"

text \<open>
  \<^verbatim>\<open>let rebuild = true; if(this.fileTimestamps && this.contextTimestamps)
  rebuild = cacheModule.needRebuild(this.fileTimestamps, this.contextTimestamps);\<close>
\<close>

definition rebuild_of :: "module_methods \<Rightarrow> store \<Rightarrow> mref \<Rightarrow> bool" where
  "rebuild_of M c cm =
     (case fileTimestamps c of
        None \<Rightarrow> True
      | Some ft \<Rightarrow>
          (case contextTimestamps c of
             None \<Rightarrow> True
           | Some ct \<Rightarrow> needRebuild M (heap c cm) ft ct))"

definition addModule ::
  "module_methods \<Rightarrow> mref \<Rightarrow> string option \<Rightarrow> store \<Rightarrow> addModule_result \<times> store" where
  "addModule M m cacheGroup c =
     (let ident = identifier (heap c m) in
      if modules_map c ident \<noteq> None then (RFalse, c)
      else
        let cacheName = cacheName_of cacheGroup ident;
            insert_given = (\<lambda>c0.
              (RTrue,
               c0\<lparr>modules_map := (modules_map c0)(ident \<mapsto> m),
                   cache := (case cache c0 of None \<Rightarrow> None
                             | Some t \<Rightarrow> Some (t(cacheName \<mapsto> m))),
                   modules := modules c0 @ [m]\<rparr>))
        in
        (case cache_lookup c cacheName of
           Some cacheModule \<Rightarrow>
             if \<not> rebuild_of M c cacheModule then
               let c1 = c\<lparr>heap := (heap c)(cacheModule := disconnect M (heap c cacheModule))\<rparr>;
                   c2 = c1\<lparr>modules_map := (modules_map c1)(ident \<mapsto> cacheModule),
                           modules := modules c1 @ [cacheModule]\<rparr>;
                   c3 = c2\<lparr>comp_errors := comp_errors c2 @ errors (heap c2 cacheModule)\<rparr>;
                   c4 = c3\<lparr>comp_warnings := comp_warnings c3 @ warnings (heap c3 cacheModule)\<rparr>
               in (RModule cacheModule, c4)
             else
               insert_given (c\<lparr>heap := (heap c)(m := unbuild M (heap c m))\<rparr>)
         | None \<Rightarrow> insert_given c))"

text \<open>The condition under which the cached instance is reused.\<close>

definition reuse_cached :: "module_methods \<Rightarrow> mref \<Rightarrow> string option \<Rightarrow> store \<Rightarrow> mref \<Rightarrow> bool" where
  "reuse_cached M m cacheGroup c cm \<longleftrightarrow>
     cache_lookup c (cacheName_of cacheGroup (identifier (heap c m))) = Some cm \<and>
     (\<exists>ft ct. fileTimestamps c = Some ft \<and> contextTimestamps c = Some ct \<and>
        \<not> needRebuild M (heap c cm) ft ct)"

text \<open>\<^verbatim>\<open>getModule(module)\<close> and \<^verbatim>\<open>findModule(identifier)\<close>.\<close>

definition getModule :: "store \<Rightarrow> mref \<Rightarrow> mref option" where
  "getModule c m = modules_map c (identifier (heap c m))"

definition findModule :: "store \<Rightarrow> string \<Rightarrow> mref option" where
  "findModule c ident = modules_map c ident"

subsection \<open>IdAllocator: applyModuleIds and checkConstraints\<close>

text \<open>
  A module id is a number or a string; \<^verbatim>\<open>null\<close> is \<open>None\<close>. The lookup tables of the
  code are plain objects, indexed by the id converted to a property key (a string).
\<close>

datatype js_id = IdNum nat | IdStr string

function string_of_nat :: "nat \<Rightarrow> string" where
  "string_of_nat n =
     (if n < 10 then [char_of (48 + n)]
      else string_of_nat (n div 10) @ [char_of (48 + n mod 10)])"
  by pat_completeness auto
termination
  by (relation "measure id") auto

declare string_of_nat.simps [simp del]

fun key_of :: "js_id \<Rightarrow> string" where
  "key_of (IdNum n) = string_of_nat n"
| "key_of (IdStr s) = s"

text \<open>The truth value of \<^verbatim>\<open>module1.id\<close>: \<^verbatim>\<open>null\<close>, \<^verbatim>\<open>0\<close> and \<^verbatim>\<open>""\<close> are falsy.\<close>

fun truthy_id :: "js_id option \<Rightarrow> bool" where
  "truthy_id None = False"
| "truthy_id (Some (IdNum n)) = (n \<noteq> 0)"
| "truthy_id (Some (IdStr s)) = (s \<noteq> [])"

text \<open>
  The pair \<^verbatim>\<open>(usedIds, usedIdMap)\<close>. \<^verbatim>\<open>usedIdMap\<close> is made by \<^verbatim>\<open>Object.create(null)\<close>, so
  a key that was never written reads as undefined (\<open>False\<close>).
\<close>

type_synonym used = "js_id list \<times> (string \<Rightarrow> bool)"

text \<open>The body of the loop over \<^verbatim>\<open>Object.keys(this.usedModuleIds)\<close>.\<close>

definition reserve_id :: "used \<Rightarrow> js_id \<Rightarrow> used" where
  "reserve_id u i =
     (case u of (usedIds, usedIdMap) \<Rightarrow>
        if \<not> usedIdMap (key_of i) then (usedIds @ [i], usedIdMap(key_of i := True))
        else (usedIds, usedIdMap))"

text \<open>The body of the loop over \<^verbatim>\<open>modules1\<close>: \<^verbatim>\<open>if(module1.id && !usedIdMap[module1.id])\<close>.\<close>

definition collect_module_id :: "used \<Rightarrow> js_id option \<Rightarrow> used" where
  "collect_module_id u mid =
     (case u of (usedIds, usedIdMap) \<Rightarrow>
        (case mid of
           None \<Rightarrow> (usedIds, usedIdMap)
         | Some i \<Rightarrow>
             if truthy_id mid \<and> \<not> usedIdMap (key_of i)
             then (usedIds @ [i], usedIdMap(key_of i := True))
             else (usedIds, usedIdMap)))"

text \<open>\<^verbatim>\<open>usedIdMax\<close>: starts at -1, ids that are not numbers are skipped.\<close>

definition usedIdMax_step :: "int \<Rightarrow> js_id \<Rightarrow> int" where
  "usedIdMax_step mx i = (case i of IdNum n \<Rightarrow> max mx (int n) | IdStr s \<Rightarrow> mx)"

text \<open>
  The body of the loop over \<^verbatim>\<open>modules2\<close>. The state is \<^verbatim>\<open>(unusedIds, nextFreeModuleId)\<close>
  and the ids given so far; \<^verbatim>\<open>unusedIds.pop()\<close> takes the last element.
\<close>

definition assign_id ::
  "nat list \<times> nat \<times> js_id option list \<Rightarrow> js_id option \<Rightarrow> nat list \<times> nat \<times> js_id option list" where
  "assign_id st mid =
     (case st of (unusedIds, nextFree, done) \<Rightarrow>
        (case mid of
           None \<Rightarrow>
             if unusedIds \<noteq> []
             then (butlast unusedIds, nextFree, done @ [Some (IdNum (last unusedIds))])
             else (unusedIds, nextFree + 1, done @ [Some (IdNum nextFree)])
         | Some i \<Rightarrow> (unusedIds, nextFree, done @ [mid])))"

text \<open>
  \<^verbatim>\<open>applyModuleIds\<close>, on the ids of \<^verbatim>\<open>this.modules\<close> in order. \<open>usedModuleIds\<close> is the
  list of the values of \<^verbatim>\<open>this.usedModuleIds\<close> in key order, \<open>None\<close> when it is not set.
  The result is the list of ids after the call.
\<close>

definition applyModuleIds :: "js_id list option \<Rightarrow> js_id option list \<Rightarrow> js_id option list" where
  "applyModuleIds usedModuleIds ids =
     (let u0 = (case usedModuleIds of
                  None \<Rightarrow> ([], \<lambda>k. False)
                | Some rs \<Rightarrow> foldl reserve_id ([], \<lambda>k. False) rs);
          u1 = foldl collect_module_id u0 ids;
          usedIds = fst u1;
          usedIdMap = snd u1;
          start =
            (if length usedIds > 0 then
               let usedIdMax = foldl usedIdMax_step (- 1) usedIds;
                   nextFree = nat (usedIdMax + 1)
               in (filter (\<lambda>i. \<not> usedIdMap (key_of (IdNum i))) (rev [0..<nextFree]), nextFree)
             else ([], 0))
      in snd (snd (foldl assign_id (fst start, snd start, []) ids)))"

text \<open>
  \<^verbatim>\<open>checkConstraints\<close>. \<^verbatim>\<open>usedIds\<close> is the object literal \<^verbatim>\<open>{}\<close> and is never written in
  the loop, so \<^verbatim>\<open>usedIds[moduleId]\<close> only finds what every object inherits from
  \<^verbatim>\<open>Object.prototype\<close>. The id \<^verbatim>\<open>null\<close> reads the key \<^verbatim>\<open>"null"\<close>.
  \<^verbatim>\<open>chunk.checkConstraints()\<close> is a method of Chunk: the parameter \<open>chunk_check\<close> gives the
  error it throws, if any.
\<close>

datatype constraint_error =
  DuplicateModuleId string | DuplicateChunk nat | ChunkConstraint string

definition object_prototype_keys :: "string list" where
  "object_prototype_keys =
     [''constructor'', ''__defineGetter__'', ''__defineSetter__'', ''hasOwnProperty'',
      ''__lookupGetter__'', ''__lookupSetter__'', ''isPrototypeOf'', ''propertyIsEnumerable'',
      ''toString'', ''valueOf'', ''__proto__'', ''toLocaleString'']"

definition module_id_key :: "js_id option \<Rightarrow> string" where
  "module_id_key mid = (case mid of None \<Rightarrow> ''null'' | Some i \<Rightarrow> key_of i)"

fun check_module_ids :: "js_id option list \<Rightarrow> constraint_error option" where
  "check_module_ids [] = None"
| "check_module_ids (mid # rest) =
     (if module_id_key mid \<in> set object_prototype_keys
      then Some (DuplicateModuleId (module_id_key mid))
      else check_module_ids rest)"

text \<open>\<^verbatim>\<open>chunks.indexOf(chunk) !== indexChunk\<close>: the chunk stands earlier in the list.\<close>

fun check_chunks ::
  "(nat \<Rightarrow> string option) \<Rightarrow> nat list \<Rightarrow> nat list \<Rightarrow> constraint_error option" where
  "check_chunks chunk_check seen [] = None"
| "check_chunks chunk_check seen (ch # rest) =
     (if ch \<in> set seen then Some (DuplicateChunk ch)
      else (case chunk_check ch of
              Some msg \<Rightarrow> Some (ChunkConstraint msg)
            | None \<Rightarrow> check_chunks chunk_check (seen @ [ch]) rest))"

definition checkConstraints ::
  "(nat \<Rightarrow> string option) \<Rightarrow> js_id option list \<Rightarrow> nat list \<Rightarrow> constraint_error option" where
  "checkConstraints chunk_check ids chunks =
     (case check_module_ids ids of
        Some e \<Rightarrow> Some e
      | None \<Rightarrow> check_chunks chunk_check [] chunks)"

text \<open>
  A store for examples: module 0 is a cached instance of \<^verbatim>\<open>"a"\<close> with one error and one
  warning, module 1 is a fresh instance with the same identifier, nothing is in
  \<^verbatim>\<open>_modules\<close> yet, both timestamp maps are set and no cached module needs a rebuild.
\<close>

definition example_error :: report where
  "example_error = \<lparr>what = Error ''e'', origin = None, dependencies = None\<rparr>"

definition example_warning :: report where
  "example_warning = \<lparr>what = Error ''w'', origin = None, dependencies = None\<rparr>"

definition example_methods :: module_methods where
  "example_methods =
     \<lparr>needRebuild = (\<lambda>mo ft ct. False), disconnect = (\<lambda>mo. mo), unbuild = (\<lambda>mo. mo)\<rparr>"

definition example_store :: store where
  "example_store =
     \<lparr>heap = (\<lambda>r. if r = 0
                 then \<lparr>identifier = ''a'', errors = [example_error], warnings = [example_warning]\<rparr>
                 else \<lparr>identifier = ''a'', errors = [], warnings = []\<rparr>),
      modules_map = Map.empty,
      modules = [],
      cache = Some [''ma'' \<mapsto> 0],
      fileTimestamps = Some Map.empty,
      contextTimestamps = Some Map.empty,
      comp_errors = [],
      comp_warnings = []\<rparr>"

subsection \<open>BuildCoordinator: buildModule and waitForBuildingFinished\<close>

text \<open>
  A callback is a function that the code calls later. What it does to the coordinator when
  it runs is a list of further calls of \<^verbatim>\<open>buildModule\<close> and \<^verbatim>\<open>waitForBuildingFinished\<close>
  (a callback may re-enter the coordinator); the list may depend on the argument it is
  called with. \<open>cb_name\<close> identifies the callback in the log of calls.
\<close>

datatype callback = Callback (cb_name: nat) (cb_body: "error option \<Rightarrow> request list")
  and request =
    ReqBuildModule mref bool "mref option" "nat list option" callback
    | ReqWaitForBuildingFinished mref callback

text \<open>
  An element of a \<^verbatim>\<open>callbackList\<close>: \<^verbatim>\<open>buildModule\<close> pushes \<^verbatim>\<open>thisCallback\<close> itself,
  \<^verbatim>\<open>waitForBuildingFinished\<close> pushes the closure \<^verbatim>\<open>() => callback()\<close>.
\<close>

datatype waiter = Direct callback | NoArgs callback

text \<open>
  The closure that \<^verbatim>\<open>buildModule\<close> hands to \<^verbatim>\<open>module.build\<close>. It captures the module, the
  array \<^verbatim>\<open>callbackList\<close> (by reference) and the arguments \<^verbatim>\<open>optional\<close>, \<^verbatim>\<open>origin\<close> and
  \<^verbatim>\<open>dependencies\<close> of the call that started the build.
\<close>

record build_closure =
  b_module :: mref
  b_list :: nat
  b_optional :: bool
  b_origin :: "mref option"
  b_dependencies :: "nat list option"

text \<open>
  The state: \<open>buildingModules\<close> is \<^verbatim>\<open>this._buildingModules\<close>, a Map from modules to arrays;
  \<open>lists\<close> holds the arrays and \<open>next_list\<close> is the next unused array reference;
  \<open>pending\<close> are the calls of \<^verbatim>\<open>module.build\<close> whose completion has not fired yet (the
  builds in flight); \<open>calls\<close> logs every call of a callback with its argument;
  \<open>ticks\<close> are the callbacks scheduled with \<^verbatim>\<open>process.nextTick\<close>; \<open>co_errors\<close> and
  \<open>co_warnings\<close> are \<^verbatim>\<open>this.errors\<close> and \<^verbatim>\<open>this.warnings\<close>.
\<close>

record coordinator =
  buildingModules :: "mref \<rightharpoonup> nat"
  lists :: "nat \<Rightarrow> waiter list"
  next_list :: nat
  pending :: "build_closure list"
  calls :: "(nat \<times> error option) list"
  ticks :: "callback list"
  co_errors :: "report list"
  co_warnings :: "report list"

definition init_coordinator :: coordinator where
  "init_coordinator =
     \<lparr>buildingModules = Map.empty, lists = (\<lambda>r. []), next_list = 0, pending = [],
      calls = [], ticks = [], co_errors = [], co_warnings = []\<rparr>"

text \<open>\<^verbatim>\<open>module.errors\<close> and \<^verbatim>\<open>module.warnings\<close> as the build left them.\<close>

record module_reports =
  errors_of :: "mref \<Rightarrow> report list"
  warnings_of :: "mref \<Rightarrow> report list"

definition waitForBuildingFinished :: "mref \<Rightarrow> callback \<Rightarrow> coordinator \<Rightarrow> coordinator" where
  "waitForBuildingFinished m cb s =
     (case buildingModules s m of
        Some r \<Rightarrow> s\<lparr>lists := (lists s)(r := lists s r @ [NoArgs cb])\<rparr>
      | None \<Rightarrow> s\<lparr>ticks := ticks s @ [cb]\<rparr>)"

text \<open>
  \<^verbatim>\<open>buildModule\<close> up to the call of \<^verbatim>\<open>module.build\<close>, which is asynchronous: the call is
  recorded in \<open>pending\<close> and its completion is \<open>build_done\<close> below.
\<close>

definition buildModule ::
  "mref \<Rightarrow> bool \<Rightarrow> mref option \<Rightarrow> nat list option \<Rightarrow> callback \<Rightarrow> coordinator \<Rightarrow> coordinator" where
  "buildModule m optional orig deps thisCallback s =
     (case buildingModules s m of
        Some r \<Rightarrow> s\<lparr>lists := (lists s)(r := lists s r @ [Direct thisCallback])\<rparr>
      | None \<Rightarrow>
          let r = next_list s in
          s\<lparr>buildingModules := (buildingModules s)(m \<mapsto> r),
            lists := (lists s)(r := [Direct thisCallback]),
            next_list := r + 1,
            pending := pending s @
              [\<lparr>b_module = m, b_list = r, b_optional = optional, b_origin = orig,
                b_dependencies = deps\<rparr>]\<rparr>)"

fun do_request :: "request \<Rightarrow> coordinator \<Rightarrow> coordinator" where
  "do_request (ReqBuildModule m optional orig deps cb) s = buildModule m optional orig deps cb s"
| "do_request (ReqWaitForBuildingFinished m cb) s = waitForBuildingFinished m cb s"

text \<open>Calling a callback with an argument: the call is logged, then its body runs.\<close>

definition run_callback :: "callback \<Rightarrow> error option \<Rightarrow> coordinator \<Rightarrow> coordinator" where
  "run_callback cb arg s =
     foldl (\<lambda>s' r. do_request r s') (s\<lparr>calls := calls s @ [(cb_name cb, arg)]\<rparr>) (cb_body cb arg)"

text \<open>\<^verbatim>\<open>cb(err)\<close> for an element of the list: the closure \<^verbatim>\<open>() => callback()\<close> drops \<^verbatim>\<open>err\<close>.\<close>

fun waiter_callback :: "waiter \<Rightarrow> callback" where
  "waiter_callback (Direct cb) = cb"
| "waiter_callback (NoArgs cb) = cb"

fun waiter_arg :: "waiter \<Rightarrow> error option \<Rightarrow> error option" where
  "waiter_arg (Direct cb) err = err"
| "waiter_arg (NoArgs cb) err = None"

definition run_waiter :: "waiter \<Rightarrow> error option \<Rightarrow> coordinator \<Rightarrow> coordinator" where
  "run_waiter w err s = run_callback (waiter_callback w) (waiter_arg w err) s"

definition stamp :: "mref option \<Rightarrow> nat list option \<Rightarrow> report \<Rightarrow> report" where
  "stamp orig deps e = e\<lparr>origin := orig, dependencies := deps\<rparr>"

text \<open>
  The closure passed to \<^verbatim>\<open>module.build\<close>, called with \<^verbatim>\<open>error\<close>: the module's errors and
  warnings are stamped and pushed, then \<^verbatim>\<open>callback\<close> deletes the entry of the module and
  calls every element of the captured array with the error (\<^verbatim>\<open>forEach\<close> visits the elements
  the array has when it starts). The plugin hooks (\<^verbatim>\<open>build-module\<close>, \<^verbatim>\<open>failed-module\<close>,
  \<^verbatim>\<open>succeed-module\<close>) and the sorting of \<^verbatim>\<open>module.dependencies\<close> do not touch this state and
  are left out.
\<close>

definition build_done ::
  "module_reports \<Rightarrow> build_closure \<Rightarrow> error option \<Rightarrow> coordinator \<Rightarrow> coordinator" where
  "build_done R b err s =
     (let es = map (stamp (b_origin b) (b_dependencies b)) (errors_of R (b_module b));
          ws = map (stamp (b_origin b) (b_dependencies b)) (warnings_of R (b_module b));
          s1 = (if b_optional b then s\<lparr>co_warnings := co_warnings s @ es\<rparr>
                else s\<lparr>co_errors := co_errors s @ es\<rparr>);
          s2 = s1\<lparr>co_warnings := co_warnings s1 @ ws\<rparr>;
          s3 = s2\<lparr>buildingModules := (buildingModules s2)(b_module b := None)\<rparr>
      in foldl (\<lambda>s' w. run_waiter w err s') s3 (lists s3 (b_list b)))"

text \<open>
  What can happen to the coordinator: the compilation calls it, a build in flight completes
  (the \<open>i\<close>-th of \<open>pending\<close>, with or without an error), or the next scheduled tick runs.
  An event that is not possible in a state gives \<open>None\<close>.
\<close>

datatype event = Call request | Complete nat "error option" | Tick

fun step :: "module_reports \<Rightarrow> event \<Rightarrow> coordinator \<Rightarrow> coordinator option" where
  "step R (Call r) s = Some (do_request r s)"
| "step R (Complete i err) s =
     (if i < length (pending s)
      then Some (build_done R (pending s ! i) err
                   (s\<lparr>pending := take i (pending s) @ drop (Suc i) (pending s)\<rparr>))
      else None)"
| "step R Tick s =
     (case ticks s of
        [] \<Rightarrow> None
      | cb # rest \<Rightarrow> Some (run_callback cb None (s\<lparr>ticks := rest\<rparr>)))"

fun run :: "module_reports \<Rightarrow> event list \<Rightarrow> coordinator \<Rightarrow> coordinator option" where
  "run R [] s = Some s"
| "run R (e # es) s = (case step R e s of None \<Rightarrow> None | Some s' \<Rightarrow> run R es s')"

text \<open>The number of builds of a module that are in flight.\<close>

definition in_flight :: "coordinator \<Rightarrow> mref \<Rightarrow> nat" where
  "in_flight s m = length (filter (\<lambda>b. b_module b = m) (pending s))"

text \<open>
  The coordinator is coherent when the builds in flight are for distinct modules and hold
  distinct arrays, each of them is registered in \<open>buildingModules\<close> under its module with
  its array, and nothing else is registered.
\<close>

definition coherent :: "coordinator \<Rightarrow> bool" where
  "coherent s \<longleftrightarrow>
     distinct (map b_module (pending s)) \<and>
     distinct (map b_list (pending s)) \<and>
     list_all (\<lambda>b. buildingModules s (b_module b) = Some (b_list b) \<and> b_list b < next_list s)
       (pending s) \<and>
     dom (buildingModules s) \<subseteq> b_module ` set (pending s)"

text \<open>An array reference that is allocated and not registered under any module.\<close>

definition retired :: "nat \<Rightarrow> coordinator \<Rightarrow> bool" where
  "retired r s \<longleftrightarrow> r < next_list s \<and> (\<forall>m. buildingModules s m \<noteq> Some r)"

text \<open>
  An example: two callers ask for a build of module 0. The first caller's callback asks for
  the module to be built again when it is called.
\<close>

definition example_reports :: module_reports where
  "example_reports = \<lparr>errors_of = (\<lambda>m. []), warnings_of = (\<lambda>m. [])\<rparr>"

definition example_rebuilder :: callback where
  "example_rebuilder =
     Callback 1 (\<lambda>err. [ReqBuildModule 0 False None None (Callback 3 (\<lambda>e. []))])"

definition example_events :: "event list" where
  "example_events =
     [Call (ReqBuildModule 0 False None None example_rebuilder),
      Call (ReqBuildModule 0 False None None (Callback 2 (\<lambda>err. [])))]"

definition example_building :: coordinator where
  "example_building =
     buildModule 0 False None None (Callback 2 (\<lambda>err. []))
       (buildModule 0 False None None example_rebuilder init_coordinator)"

subsection \<open>DependencyResolver: a failing factory in addModuleDependencies\<close>

text \<open>A dependency of a group: its reference and its \<^verbatim>\<open>optional\<close> flag.\<close>

record dependency =
  dep_ref :: nat
  dep_optional :: bool

text \<open>
  What \<^verbatim>\<open>factory.create\<close> passes to its callback \<^verbatim>\<open>(err, dependentModule)\<close>: an error, no
  module, or a module.
\<close>

datatype factory_result = Failed error | NoModule | Created mref

text \<open>
  The state of one call of \<^verbatim>\<open>addModuleDependencies\<close>. \<open>live\<close> says that \<^verbatim>\<open>_this\<close> is not
  null; \<open>fan_errors\<close> and \<open>fan_warnings\<close> are the compilation's \<^verbatim>\<open>errors\<close> and
  \<^verbatim>\<open>warnings\<close>; \<open>released\<close> counts \<^verbatim>\<open>semaphore.release()\<close>; \<open>group_calls\<close> logs the calls
  of the callback of each group (the group's index and the error passed);
  \<open>group_ticks\<close> are the group callbacks scheduled with \<^verbatim>\<open>process.nextTick\<close>.
  \<open>completed\<close>, \<open>n_groups\<close> and \<open>finished\<close> are the bookkeeping of \<^verbatim>\<open>asyncLib.forEach\<close>;
  \<open>outer_calls\<close> logs the calls \<^verbatim>\<open>callback(err)\<close> of the caller's callback and
  \<open>outer_ticks\<close> counts \<^verbatim>\<open>process.nextTick(callback)\<close>.
\<close>

record fanout =
  live :: bool
  fan_errors :: "report list"
  fan_warnings :: "report list"
  released :: nat
  group_calls :: "(nat \<times> report option) list"
  group_ticks :: "nat list"
  completed :: nat
  n_groups :: nat
  finished :: bool
  outer_calls :: "report option list"
  outer_ticks :: nat

definition init_fanout :: "nat \<Rightarrow> fanout" where
  "init_fanout n =
     \<lparr>live = True, fan_errors = [], fan_warnings = [], released = 0, group_calls = [],
      group_ticks = [], completed = 0, n_groups = n, finished = False, outer_calls = [],
      outer_ticks = 0\<rparr>"

text \<open>
  The last argument of \<^verbatim>\<open>asyncLib.forEach\<close>: \<^verbatim>\<open>_this = null\<close>, then the caller's callback
  is called with the error, or scheduled when there is none.
\<close>

definition fan_final :: "report option \<Rightarrow> fanout \<Rightarrow> fanout" where
  "fan_final err st =
     (let st1 = st\<lparr>live := False\<rparr> in
      case err of
        Some e \<Rightarrow> st1\<lparr>outer_calls := outer_calls st1 @ [Some e]\<rparr>
      | None \<Rightarrow> st1\<lparr>outer_ticks := outer_ticks st1 + 1\<rparr>)"

text \<open>
  The callback that \<^verbatim>\<open>asyncLib.forEach\<close> (the function \<^verbatim>\<open>each\<close> of the library async) hands
  to the iterator for one group, as the library documents it: the first error calls the
  final callback at once; without an error the final callback is called when every group
  has completed; the final callback is called at most once.
\<close>

definition group_callback :: "nat \<Rightarrow> report option \<Rightarrow> fanout \<Rightarrow> fanout" where
  "group_callback i err st =
     (let st1 = st\<lparr>group_calls := group_calls st @ [(i, err)]\<rparr> in
      case err of
        Some e \<Rightarrow>
          if finished st1 then st1 else fan_final (Some e) (st1\<lparr>finished := True\<rparr>)
      | None \<Rightarrow>
          let st2 = st1\<lparr>completed := completed st1 + 1\<rparr> in
          if completed st2 = n_groups st2 \<and> \<not> finished st2
          then fan_final None (st2\<lparr>finished := True\<rparr>)
          else st2)"

text \<open>\<^verbatim>\<open>errorAndCallback\<close> and \<^verbatim>\<open>warningAndCallback\<close> of the iterator, for group \<open>i\<close>.\<close>

definition errorAndCallback :: "mref \<Rightarrow> bool \<Rightarrow> nat \<Rightarrow> report \<Rightarrow> fanout \<Rightarrow> fanout" where
  "errorAndCallback module bail i err st =
     (let e = err\<lparr>origin := Some module\<rparr>;
          st1 = st\<lparr>fan_errors := fan_errors st @ [e]\<rparr>
      in if bail then group_callback i (Some e) st1 else group_callback i None st1)"

definition warningAndCallback :: "mref \<Rightarrow> nat \<Rightarrow> report \<Rightarrow> fanout \<Rightarrow> fanout" where
  "warningAndCallback module i err st =
     (let e = err\<lparr>origin := Some module\<rparr>;
          st1 = st\<lparr>fan_warnings := fan_warnings st @ [e]\<rparr>
      in group_callback i None st1)"

text \<open>\<^verbatim>\<open>isOptional\<close>: \<^verbatim>\<open>dependencies.every(d => d.optional)\<close>.\<close>

definition isOptional :: "dependency list \<Rightarrow> bool" where
  "isOptional deps = list_all dep_optional deps"

definition errorOrWarningAndCallback ::
  "mref \<Rightarrow> bool \<Rightarrow> nat \<Rightarrow> dependency list \<Rightarrow> report \<Rightarrow> fanout \<Rightarrow> fanout" where
  "errorOrWarningAndCallback module bail i deps err st =
     (if isOptional deps then warningAndCallback module i err st
      else errorAndCallback module bail i err st)"

text \<open>
  \<^verbatim>\<open>new ModuleNotFoundError(module, err, dependencies)\<close>: the error object with the
  arguments of its constructor; its stamps are not set yet.
\<close>

definition new_ModuleNotFoundError :: "mref \<Rightarrow> error \<Rightarrow> dependency list \<Rightarrow> report" where
  "new_ModuleNotFoundError module err deps =
     \<lparr>what = ModuleNotFoundError module err (map dep_ref deps), origin = None,
      dependencies = None\<rparr>"

text \<open>
  The callback given to \<^verbatim>\<open>factory.create\<close> for group \<open>i\<close> with the dependencies \<open>deps\<close>.
  What it does with a module (adding, building, recursing) is the parameter \<open>on_module\<close>.
\<close>

definition factory_callback ::
  "(mref \<Rightarrow> fanout \<Rightarrow> fanout) \<Rightarrow> mref \<Rightarrow> bool \<Rightarrow> nat \<Rightarrow> dependency list \<Rightarrow>
   factory_result \<Rightarrow> fanout \<Rightarrow> fanout" where
  "factory_callback on_module module bail i deps res st =
     (if \<not> live st then st\<lparr>released := released st + 1\<rparr>
      else
        (case res of
           Failed err \<Rightarrow>
             errorOrWarningAndCallback module bail i deps
               (new_ModuleNotFoundError module err deps)
               (st\<lparr>released := released st + 1\<rparr>)
         | NoModule \<Rightarrow>
             st\<lparr>released := released st + 1, group_ticks := group_ticks st @ [i]\<rparr>
         | Created m \<Rightarrow> on_module m st))"

text \<open>The number of reports about a failed factory call in a list.\<close>

fun is_ModuleNotFound :: "report \<Rightarrow> bool" where
  "is_ModuleNotFound r = (case what r of ModuleNotFoundError m e ds \<Rightarrow> True | _ \<Rightarrow> False)"

definition count_ModuleNotFound :: "fanout \<Rightarrow> nat" where
  "count_ModuleNotFound st =
     length (filter is_ModuleNotFound (fan_errors st)) +
     length (filter is_ModuleNotFound (fan_warnings st))"

text \<open>Two groups of one dependency each, neither optional.\<close>

definition example_groups :: "dependency list list" where
  "example_groups =
     [[\<lparr>dep_ref = 0, dep_optional = False\<rparr>], [\<lparr>dep_ref = 1, dep_optional = False\<rparr>]]"

text \<open>
  With \<^verbatim>\<open>bail\<close> set, the factory fails for the first group and then for the second
  (\<open>on_module\<close> is never reached).
\<close>

definition example_first_failure :: fanout where
  "example_first_failure =
     factory_callback (\<lambda>m st. st) 0 True 0 (example_groups ! 0) (Failed (Error ''a''))
       (init_fanout 2)"

definition example_second_failure :: fanout where
  "example_second_failure =
     factory_callback (\<lambda>m st. st) 0 True 1 (example_groups ! 1) (Failed (Error ''b''))
       example_first_failure"

subsection \<open>Entries: addEntry and _addModuleChain\<close>

text \<open>
  A slot of \<^verbatim>\<open>preparedChunks\<close> is an object \<^verbatim>\<open>{name, module}\<close>; \<^verbatim>\<open>indexOf\<close> compares
  slots by reference, so the list holds references and \<open>slots\<close> holds the objects.
\<close>

record slot =
  slot_name :: string
  slot_module :: "mref option"

record entry_state =
  preparedChunks :: "nat list"
  slots :: "nat \<Rightarrow> slot"
  next_slot :: nat
  entries :: "mref list"
  entry_errors :: "report list"

definition init_entries :: entry_state where
  "init_entries =
     \<lparr>preparedChunks = [], slots = (\<lambda>r. \<lparr>slot_name = [], slot_module = None\<rparr>), next_slot = 0,
      entries = [], entry_errors = []\<rparr>"

text \<open>
  What the collaborators of \<^verbatim>\<open>_addModuleChain\<close> do in one run: no factory is registered
  for the dependency (the function throws); the factory fails; \<^verbatim>\<open>addModule\<close> returns
  \<^verbatim>\<open>false\<close> and \<^verbatim>\<open>getModule\<close> gives the module already there; \<^verbatim>\<open>addModule\<close> returns a
  cached instance, and \<^verbatim>\<open>processModuleDependencies\<close> ends with or without an error;
  \<^verbatim>\<open>addModule\<close> returns \<^verbatim>\<open>true\<close>, the build ends with or without an error, and so does
  \<^verbatim>\<open>processModuleDependencies\<close> (which only runs after a build without error).
\<close>

datatype chain_env =
  NoFactory
  | FactoryFailed error
  | AddedDuplicate mref
  | AddedFromCache mref "report option"
  | AddedNew mref "report option" "report option"

text \<open>What comes out of a run: an exception, or a call of the callback \<^verbatim>\<open>(err, module)\<close>.\<close>

datatype outcome = Thrown error | Called "report option" "mref option"

text \<open>\<^verbatim>\<open>errorAndCallback\<close> of \<^verbatim>\<open>_addModuleChain\<close>: its two versions, chosen by \<^verbatim>\<open>this.bail\<close>.\<close>

definition chain_errorAndCallback ::
  "bool \<Rightarrow> nat \<Rightarrow> report \<Rightarrow> entry_state \<Rightarrow> entry_state \<times> outcome" where
  "chain_errorAndCallback bail dep err st =
     (if bail then (st, Called (Some err) None)
      else (st\<lparr>entry_errors := entry_errors st @ [err\<lparr>dependencies := Some [dep]\<rparr>]\<rparr>,
            Called None None))"

text \<open>\<^verbatim>\<open>moduleReady\<close>: the result of \<^verbatim>\<open>processModuleDependencies\<close> decides.\<close>

definition moduleReady :: "mref \<Rightarrow> report option \<Rightarrow> entry_state \<Rightarrow> entry_state \<times> outcome" where
  "moduleReady m pmd st =
     (case pmd of
        Some err \<Rightarrow> (st, Called (Some err) None)
      | None \<Rightarrow> (st, Called None (Some m)))"

text \<open>
  \<^verbatim>\<open>_addModuleChain(context, dependency, onModule, callback)\<close>. On the duplicate path the
  callback waits with \<^verbatim>\<open>waitForBuildingFinished\<close>, which never passes an error.
\<close>

definition addModuleChain ::
  "bool \<Rightarrow> nat \<Rightarrow> (mref \<Rightarrow> entry_state \<Rightarrow> entry_state) \<Rightarrow> chain_env \<Rightarrow> entry_state \<Rightarrow>
   entry_state \<times> outcome" where
  "addModuleChain bail dep onModule env st =
     (case env of
        NoFactory \<Rightarrow>
          (st, Thrown (Error ''No dependency factory available for this dependency type''))
      | FactoryFailed e \<Rightarrow>
          chain_errorAndCallback bail dep
            \<lparr>what = EntryModuleNotFoundError e, origin = None, dependencies = None\<rparr> st
      | AddedDuplicate m \<Rightarrow> (onModule m st, Called None (Some m))
      | AddedFromCache m pmd \<Rightarrow> moduleReady m pmd (onModule m st)
      | AddedNew m built pmd \<Rightarrow>
          (case built of
             Some err \<Rightarrow> chain_errorAndCallback bail dep err (onModule m st)
           | None \<Rightarrow> moduleReady m pmd (onModule m st)))"

text \<open>
  \<^verbatim>\<open>preparedChunks.splice(preparedChunks.indexOf(slot), 1)\<close>: the first occurrence is
  removed; when there is none, \<^verbatim>\<open>indexOf\<close> is -1 and \<^verbatim>\<open>splice(-1, 1)\<close> removes the last
  element.
\<close>

definition remove_slot :: "nat \<Rightarrow> nat list \<Rightarrow> nat list" where
  "remove_slot r xs = (if r \<in> set xs then remove1 r xs else butlast xs)"

text \<open>The callback that \<^verbatim>\<open>addEntry\<close> passes to \<^verbatim>\<open>_addModuleChain\<close>, for the slot \<open>r\<close>.\<close>

definition addEntry_callback ::
  "nat \<Rightarrow> report option \<Rightarrow> mref option \<Rightarrow> entry_state \<Rightarrow> entry_state \<times> outcome" where
  "addEntry_callback r err module st =
     (case err of
        Some e \<Rightarrow> (st, Called (Some e) None)
      | None \<Rightarrow>
          (case module of
             Some m \<Rightarrow>
               (st\<lparr>slots := (slots st)(r := (slots st r)\<lparr>slot_module := Some m\<rparr>)\<rparr>,
                Called None (Some m))
           | None \<Rightarrow>
               (st\<lparr>preparedChunks := remove_slot r (preparedChunks st)\<rparr>, Called None None)))"

text \<open>
  \<^verbatim>\<open>addEntry(context, entry, name, callback)\<close>: the slot is pushed, the chain runs, and its
  callback is the one above. The reference of the new slot is \<open>next_slot\<close>.
\<close>

definition addEntry ::
  "bool \<Rightarrow> nat \<Rightarrow> string \<Rightarrow> chain_env \<Rightarrow> entry_state \<Rightarrow> entry_state \<times> outcome" where
  "addEntry bail entry name env st =
     (let r = next_slot st;
          st1 = st\<lparr>slots := (slots st)(r := \<lparr>slot_name = name, slot_module = None\<rparr>),
                   preparedChunks := preparedChunks st @ [r],
                   next_slot := r + 1\<rparr>
      in case addModuleChain bail entry (\<lambda>m s. s\<lparr>entries := entries s @ [m]\<rparr>) env st1 of
           (st2, Thrown e) \<Rightarrow> (st2, Thrown e)
         | (st2, Called err module) \<Rightarrow> addEntry_callback r err module st2)"

text \<open>Every slot in the list has been allocated.\<close>

definition slots_allocated :: "entry_state \<Rightarrow> bool" where
  "slots_allocated st \<longleftrightarrow> list_all (\<lambda>r. r < next_slot st) (preparedChunks st)"

text \<open>The runs of the chain that end with an error passed to the callback.\<close>

fun ends_with_error :: "bool \<Rightarrow> chain_env \<Rightarrow> bool" where
  "ends_with_error bail NoFactory = False"
| "ends_with_error bail (FactoryFailed e) = bail"
| "ends_with_error bail (AddedDuplicate m) = False"
| "ends_with_error bail (AddedFromCache m pmd) = (pmd \<noteq> None)"
| "ends_with_error bail (AddedNew m built pmd) =
     (if built \<noteq> None then bail else pmd \<noteq> None)"

subsection \<open>HashEngine: createHash\<close>

text \<open>
  A hash object of the crypto library is the data fed to it so far (\<^verbatim>\<open>update\<close> appends);
  \<^verbatim>\<open>digest\<close> is a parameter. The options are those of \<^verbatim>\<open>this.outputOptions\<close>.
\<close>

record output_options =
  hashFunction :: string
  hashDigest :: string
  hashDigestLength :: nat
  hashSalt :: "string option"

text \<open>
  The fields of modules and chunks that \<^verbatim>\<open>createHash\<close> writes, and an opaque rest that the
  methods of Module, Chunk and the templates read (\<open>m_content\<close>, \<open>c_content\<close>).
  \<open>c_hasRuntime\<close> is the result of \<^verbatim>\<open>chunk.hasRuntime()\<close>.
\<close>

record 'a hmodule =
  m_content :: 'a
  m_hash :: "string option"
  m_renderedHash :: "string option"

record 'b hchunk =
  c_content :: 'b
  c_hasRuntime :: bool
  c_hash :: "string option"
  c_renderedHash :: "string option"

text \<open>
  The part of the Compilation that \<^verbatim>\<open>createHash\<close> reads and writes: \<open>h_children\<close> are the
  hashes of the child compilations, \<open>h_warnings\<close> and \<open>h_errors\<close> the messages of the
  warnings and errors. Every other field of the Compilation is in the extension of the
  record.
\<close>

record ('a, 'b) hash_comp =
  h_modules :: "'a hmodule list"
  h_chunks :: "'b hchunk list"
  h_children :: "string list"
  h_warnings :: "string list"
  h_errors :: "string list"
  h_outputOptions :: output_options
  h_fullHash :: "string option"
  h_hash :: "string option"

text \<open>
  The collaborators. Each \<^verbatim>\<open>updateHash\<close> is given by the data it feeds to the hash object.
  The templates are part of this record: \<open>moduleTemplates_updateHash\<close> lists the keys of
  \<^verbatim>\<open>this.moduleTemplates\<close> with the data of each. The methods that work on a chunk may read
  the hashes already written to modules and chunks, so they take the current modules and
  chunks and the position of the chunk in \<^verbatim>\<open>this.chunks\<close>. \<open>chunk_hash_plugins\<close> is the
  data fed by the plugins of \<^verbatim>\<open>"chunk-hash"\<close>.
\<close>

record ('a, 'b) hash_env =
  digest :: "string \<Rightarrow> string \<Rightarrow> string \<Rightarrow> string"
  mainTemplate_updateHash :: string
  chunkTemplate_updateHash :: string
  moduleTemplates_updateHash :: "(string \<times> string) list"
  module_updateHash :: "'a hmodule \<Rightarrow> string"
  chunk_updateHash :: "'a hmodule list \<Rightarrow> 'b hchunk list \<Rightarrow> nat \<Rightarrow> string"
  mainTemplate_updateHashForChunk :: "'a hmodule list \<Rightarrow> 'b hchunk list \<Rightarrow> nat \<Rightarrow> string"
  chunkTemplate_updateHashForChunk :: "'a hmodule list \<Rightarrow> 'b hchunk list \<Rightarrow> nat \<Rightarrow> string"
  chunk_hash_plugins :: "'a hmodule list \<Rightarrow> 'b hchunk list \<Rightarrow> nat \<Rightarrow> string"

text \<open>\<^verbatim>\<open>if(outputOptions.hashSalt) hash.update(outputOptions.hashSalt)\<close>: an empty salt is falsy.\<close>

definition salt_data :: "output_options \<Rightarrow> string" where
  "salt_data opts = (case hashSalt opts of None \<Rightarrow> [] | Some s \<Rightarrow> s)"

text \<open>The loop over the modules: a fresh hash object for each.\<close>

definition hash_module :: "('a, 'b) hash_env \<Rightarrow> output_options \<Rightarrow> 'a hmodule \<Rightarrow> 'a hmodule" where
  "hash_module E opts m =
     (let h = digest E (hashFunction opts) (hashDigest opts) (module_updateHash E m)
      in m\<lparr>m_hash := Some h, m_renderedHash := Some (take (hashDigestLength opts) h)\<rparr>)"

text \<open>
  \<^verbatim>\<open>chunks.sort(...)\<close> on a copy of \<^verbatim>\<open>this.chunks\<close>: the comparison puts the chunks
  without runtime first and leaves chunks of the same kind in their order (the sort is
  stable). The copy holds references, so the result is a list of positions.
\<close>

definition sorted_chunk_positions :: "'b hchunk list \<Rightarrow> nat list" where
  "sorted_chunk_positions cs =
     filter (\<lambda>i. \<not> c_hasRuntime (cs ! i)) [0..<length cs] @
     filter (\<lambda>i. c_hasRuntime (cs ! i)) [0..<length cs]"

text \<open>
  The body of the loop over the sorted chunks. The state is the data fed to the
  compilation's hash so far and the chunks.
\<close>

definition hash_chunk ::
  "('a, 'b) hash_env \<Rightarrow> output_options \<Rightarrow> 'a hmodule list \<Rightarrow> string \<times> 'b hchunk list \<Rightarrow> nat \<Rightarrow>
   string \<times> 'b hchunk list" where
  "hash_chunk E opts ms st i =
     (case st of (fed, cs) \<Rightarrow>
        let data = salt_data opts @ chunk_updateHash E ms cs i @
                   (if c_hasRuntime (cs ! i) then mainTemplate_updateHashForChunk E ms cs i
                    else chunkTemplate_updateHashForChunk E ms cs i) @
                   chunk_hash_plugins E ms cs i;
            h = digest E (hashFunction opts) (hashDigest opts) data
        in (fed @ h,
            cs[i := (cs ! i)\<lparr>c_hash := Some h,
                              c_renderedHash := Some (take (hashDigestLength opts) h)\<rparr>]))"

definition createHash ::
  "('a, 'b) hash_env \<Rightarrow> ('a, 'b, 'z) hash_comp_scheme \<Rightarrow> ('a, 'b, 'z) hash_comp_scheme" where
  "createHash E c =
     (let opts = h_outputOptions c;
          fed0 = salt_data opts @ mainTemplate_updateHash E @ chunkTemplate_updateHash E @
                 concat (map snd (sort_key fst (moduleTemplates_updateHash E))) @
                 concat (h_children c) @ concat (h_warnings c) @ concat (h_errors c);
          ms = map (hash_module E opts) (h_modules c);
          st = foldl (hash_chunk E opts ms) (fed0, h_chunks c)
                 (sorted_chunk_positions (h_chunks c));
          full = digest E (hashFunction opts) (hashDigest opts) (fst st)
      in c\<lparr>h_modules := ms, h_chunks := snd st, h_fullHash := Some full,
           h_hash := Some (take (hashDigestLength opts) full)\<rparr>)"

text \<open>A module or chunk whose rendered hash is its hash cut to the given length.\<close>

definition module_rendered :: "nat \<Rightarrow> 'a hmodule \<Rightarrow> bool" where
  "module_rendered n m \<longleftrightarrow> (\<exists>h. m_hash m = Some h \<and> m_renderedHash m = Some (take n h))"

definition chunk_rendered :: "nat \<Rightarrow> 'b hchunk \<Rightarrow> bool" where
  "chunk_rendered n ch \<longleftrightarrow> (\<exists>h. c_hash ch = Some h \<and> c_renderedHash ch = Some (take n h))"

text \<open>
  An example: a digest that only reverses what it is fed, one module, a runtime chunk and a
  plain chunk. The two compilations differ in the fields that \<^verbatim>\<open>createHash\<close> does not read
  (here one number) and in the hashes left by an earlier run.
\<close>

definition example_hash_env :: "(nat, nat) hash_env" where
  "example_hash_env =
     \<lparr>digest = (\<lambda>f e d. rev d),
      mainTemplate_updateHash = ''M'',
      chunkTemplate_updateHash = ''C'',
      moduleTemplates_updateHash = [(''webassembly'', ''w''), (''javascript'', ''j'')],
      module_updateHash = (\<lambda>m. ''m''),
      chunk_updateHash = (\<lambda>ms cs i. ''c''),
      mainTemplate_updateHashForChunk = (\<lambda>ms cs i. ''r''),
      chunkTemplate_updateHashForChunk = (\<lambda>ms cs i. ''p''),
      chunk_hash_plugins = (\<lambda>ms cs i. [])\<rparr>"

definition example_comp :: "nat \<Rightarrow> string option \<Rightarrow> (nat, nat, nat) hash_comp_scheme" where
  "example_comp other old =
     \<lparr>h_modules = [\<lparr>m_content = 0, m_hash = None, m_renderedHash = None\<rparr>],
      h_chunks = [\<lparr>c_content = 0, c_hasRuntime = True, c_hash = None, c_renderedHash = None\<rparr>,
                  \<lparr>c_content = 1, c_hasRuntime = False, c_hash = None, c_renderedHash = None\<rparr>],
      h_children = [], h_warnings = [''w1''], h_errors = [],
      h_outputOptions =
        \<lparr>hashFunction = ''md5'', hashDigest = ''hex'', hashDigestLength = 4,
         hashSalt = Some ''s''\<rparr>,
      h_fullHash = old, h_hash = old, \<dots> = other\<rparr>"

subsection \<open>ChunkGraphBuilder: the second part of processDependenciesBlocksForChunks\<close>

text \<open>
  A JavaScript \<^verbatim>\<open>Set\<close> of modules is a list without repetition, in insertion order.
  \<^verbatim>\<open>set.add(m)\<close> is \<open>set_add\<close>; \<^verbatim>\<open>new Set(other)\<close> copies the list.
\<close>

definition set_add :: "nat \<Rightarrow> nat list \<Rightarrow> nat list" where
  "set_add x s = (if x \<in> set s then s else s @ [x])"

text \<open>
  What the loop reads and does not change: \<open>chunkDependencies\<close> are the entries of the Map
  built by the first part (a chunk and its list of \<^verbatim>\<open>{block, chunk}\<close> edges, as pairs),
  \<open>chunk_modules\<close> is \<^verbatim>\<open>chunk.modulesIterable\<close>. Steps 6 and 7 of the loop connect blocks,
  chunks and parents through methods of Chunk; for one edge of a chunk they are the
  parameter \<open>connect\<close>, which works on a state \<open>'g\<close> of its own.
\<close>

record 'g chunk_graph =
  chunkDependencies :: "(nat \<times> (nat \<times> nat) list) list"
  chunk_modules :: "nat \<Rightarrow> nat list"
  connect :: "nat \<Rightarrow> nat \<times> nat \<Rightarrow> 'g \<Rightarrow> 'g"

text \<open>
  The state of the loop: \<open>queue2\<close> holds the items \<^verbatim>\<open>{chunk, availableModules}\<close> (dequeued at
  the head, enqueued at the end), \<open>minAvailableModulesMap\<close> is the Map of that name.
\<close>

record 'g phase2_state =
  queue2 :: "(nat \<times> nat list) list"
  minAvailableModulesMap :: "nat \<rightharpoonup> nat list"
  connections :: 'g

definition areModulesAvailable :: "'g chunk_graph \<Rightarrow> nat \<Rightarrow> nat list \<Rightarrow> bool" where
  "areModulesAvailable G chunk availableModules =
     list_all (\<lambda>m. m \<in> set availableModules) (chunk_modules G chunk)"

text \<open>Steps 2 to 8 of the loop body, for the chunk and the set it continues with.\<close>

definition traverse_edges ::
  "'g chunk_graph \<Rightarrow> nat \<Rightarrow> nat list \<Rightarrow> 'g phase2_state \<Rightarrow> 'g phase2_state" where
  "traverse_edges G chunk availableModules s =
     (case map_of (chunkDependencies G) chunk of
        None \<Rightarrow> s
      | Some deps \<Rightarrow>
          if deps = [] then s
          else
            let newAvailableModules =
                  foldl (\<lambda>a m. set_add m a) availableModules (chunk_modules G chunk);
                filteredDeps =
                  filter (\<lambda>dep. \<not> areModulesAvailable G (snd dep) newAvailableModules) deps;
                nextChunks = foldl (\<lambda>a c. set_add c a) [] (map snd filteredDeps)
            in s\<lparr>connections := foldl (\<lambda>g dep. connect G chunk dep g) (connections s) filteredDeps,
                 queue2 := queue2 s @ map (\<lambda>c. (c, newAvailableModules)) nextChunks\<rparr>)"

text \<open>
  One round of \<^verbatim>\<open>while(queue2.length)\<close>. Step 1: without a stored set the incoming set is
  copied into the Map; otherwise every module that the incoming set lacks is deleted from
  the stored set, and the item is skipped (\<^verbatim>\<open>continue\<close>) when nothing was deleted.
\<close>

definition phase2_step :: "'g chunk_graph \<Rightarrow> 'g phase2_state \<Rightarrow> 'g phase2_state" where
  "phase2_step G s =
     (case queue2 s of
        [] \<Rightarrow> s
      | (chunk, availableModules) # rest \<Rightarrow>
          (case minAvailableModulesMap s chunk of
             None \<Rightarrow>
               traverse_edges G chunk availableModules
                 (s\<lparr>queue2 := rest,
                    minAvailableModulesMap :=
                      (minAvailableModulesMap s)(chunk \<mapsto> availableModules)\<rparr>)
           | Some minAvailableModules \<Rightarrow>
               let deletedModules =
                     list_ex (\<lambda>m. m \<notin> set availableModules) minAvailableModules;
                   shrunk = filter (\<lambda>m. m \<in> set availableModules) minAvailableModules
               in if \<not> deletedModules then s\<lparr>queue2 := rest\<rparr>
                  else traverse_edges G chunk shrunk
                         (s\<lparr>queue2 := rest,
                            minAvailableModulesMap :=
                              (minAvailableModulesMap s)(chunk \<mapsto> shrunk)\<rparr>)))"

text \<open>The loop; \<open>None\<close> would mean that it runs forever.\<close>

definition phase2 :: "'g chunk_graph \<Rightarrow> 'g phase2_state \<Rightarrow> 'g phase2_state option" where
  "phase2 G s = while_option (\<lambda>s. queue2 s \<noteq> []) (phase2_step G) s"

text \<open>The chunks that edges of the graph lead to.\<close>

definition edge_targets :: "'g chunk_graph \<Rightarrow> nat set" where
  "edge_targets G = snd ` (\<Union>entry \<in> set (chunkDependencies G). set (snd entry))"

text \<open>
  The three quantities that the loop decreases, over a finite set \<open>U\<close> of chunks: the
  number of chunks without a stored set, the total size of the stored sets, and the length
  of the queue.
\<close>

definition unset_chunks :: "nat set \<Rightarrow> 'g phase2_state \<Rightarrow> nat" where
  "unset_chunks U s = card {c \<in> U. minAvailableModulesMap s c = None}"

definition stored_size :: "nat set \<Rightarrow> 'g phase2_state \<Rightarrow> nat" where
  "stored_size U s =
     (\<Sum>c \<in> U. case minAvailableModulesMap s c of None \<Rightarrow> 0 | Some ms \<Rightarrow> length ms)"

definition shrinks_to :: "'g phase2_state \<Rightarrow> 'g phase2_state \<Rightarrow> bool" where
  "shrinks_to s s' \<longleftrightarrow>
     (\<forall>c old. minAvailableModulesMap s c = Some old \<longrightarrow>
        (\<exists>new. minAvailableModulesMap s' c = Some new \<and> set new \<subseteq> set old \<and>
               length new \<le> length old))"

text \<open>
  An example with a cycle: chunk 0 (module 10) and chunk 2 (module 12) each have an edge to
  chunk 1 (module 11), and chunk 1 has an edge back to chunk 0. \<open>connect\<close> only logs the
  edges it is called for. \<open>example_revisit\<close> is the state in which chunk 1, stored with
  \<open>[10]\<close>, is reached again with \<open>[12]\<close>; \<open>example_no_progress\<close> is the state in which
  chunk 0, stored with the empty set, is reached again.
\<close>

definition example_chunk_graph :: "(nat \<times> nat \<times> nat) list chunk_graph" where
  "example_chunk_graph =
     \<lparr>chunkDependencies = [(0, [(100, 1)]), (2, [(102, 1)]), (1, [(101, 0)])],
      chunk_modules = (\<lambda>c. if c = 0 then [10] else if c = 1 then [11] else [12]),
      connect = (\<lambda>c dep g. g @ [(c, dep)])\<rparr>"

definition example_phase2_start :: "(nat \<times> nat \<times> nat) list phase2_state" where
  "example_phase2_start =
     \<lparr>queue2 = [(0, []), (2, [])], minAvailableModulesMap = Map.empty, connections = []\<rparr>"

definition example_revisit :: "(nat \<times> nat \<times> nat) list phase2_state" where
  "example_revisit =
     \<lparr>queue2 = [(1, [12])], minAvailableModulesMap = [0 \<mapsto> [], 2 \<mapsto> [], 1 \<mapsto> [10]],
      connections = []\<rparr>"

definition example_no_progress :: "(nat \<times> nat \<times> nat) list phase2_state" where
  "example_no_progress =
     \<lparr>queue2 = [(0, [11])], minAvailableModulesMap = [0 \<mapsto> [], 2 \<mapsto> [], 1 \<mapsto> []],
      connections = []\<rparr>"

text \<open>The three quantities together, compared lexicographically.\<close>

definition phase2_measure :: "nat set \<Rightarrow> 'g phase2_state \<Rightarrow> nat \<times> nat \<times> nat" where
  "phase2_measure U s = (unset_chunks U s, stored_size U s, length (queue2 s))"

subsection \<open>GraphLabeller: the module graph\<close>

text \<open>
  A DependenciesBlock has \<^verbatim>\<open>variables\<close> (each with its own list of dependencies),
  \<^verbatim>\<open>dependencies\<close> and nested \<^verbatim>\<open>blocks\<close>; a list that is not there is the empty list. The
  labelling reads only the field \<^verbatim>\<open>module\<close> of a dependency, so a dependency is that field:
  the module it points to, or \<open>None\<close>. A module is a block; the graph gives the block of
  every module that has contents, a module beyond the list has none.
\<close>

datatype block =
  Block (blk_variables: "mref option list list") (blk_dependencies: "mref option list")
    (blk_blocks: "block list")

type_synonym graph = "block list"

definition block_of :: "graph \<Rightarrow> mref \<Rightarrow> block" where
  "block_of g m = (if m < length g then g ! m else Block [] [] [])"

text \<open>
  The dependencies of a block itself, in the order \<^verbatim>\<open>iterationBlockVariable\<close> and
  \<^verbatim>\<open>iterationOfArrayCallback\<close> visit them: those of the variables first.
\<close>

definition own_dependencies :: "block \<Rightarrow> mref option list" where
  "own_dependencies b = concat (blk_variables b) @ blk_dependencies b"

text \<open>The dependencies of a block and of all blocks nested in it, the block's own first.\<close>

fun all_dependencies :: "block \<Rightarrow> mref option list" where
  "all_dependencies (Block vs ds bs) = concat vs @ ds @ concat (map all_dependencies bs)"

text \<open>The modules that the dependencies of a list point to.\<close>

definition targets :: "mref option list \<Rightarrow> mref list" where
  "targets ds = concat (map (\<lambda>d. case d of None \<Rightarrow> [] | Some m \<Rightarrow> [m]) ds)"

text \<open>
  An edge of the module graph: a dependency somewhere in the block of \<open>m\<close> points to
  \<open>m'\<close>. \<open>reaches g r m n\<close>: there is a path of \<open>n\<close> edges from \<open>r\<close> to \<open>m\<close>;
  \<open>distance g r m n\<close>: \<open>n\<close> is the least such number.
\<close>

definition successors :: "graph \<Rightarrow> mref \<Rightarrow> mref set" where
  "successors g m = set (targets (all_dependencies (block_of g m)))"

definition edges :: "graph \<Rightarrow> (mref \<times> mref) set" where
  "edges g = {(m, m'). m' \<in> successors g m}"

definition reaches :: "graph \<Rightarrow> mref \<Rightarrow> mref \<Rightarrow> nat \<Rightarrow> bool" where
  "reaches g r m n \<longleftrightarrow> (r, m) \<in> edges g ^^ n"

definition distance :: "graph \<Rightarrow> mref \<Rightarrow> mref \<Rightarrow> nat \<Rightarrow> bool" where
  "distance g r m n \<longleftrightarrow> reaches g r m n \<and> (\<forall>k. reaches g r m k \<longrightarrow> n \<le> k)"

definition reachable :: "graph \<Rightarrow> mref \<Rightarrow> mref set" where
  "reachable g r = {m. (r, m) \<in> (edges g)\<^sup>*}"

subsection \<open>GraphLabeller: assignDepth\<close>

text \<open>
  The queue of \<^verbatim>\<open>assignDepth\<close> holds closures \<^verbatim>\<open>() => assignDepthToModule(dependency.module,
  depth)\<close>: pairs of a module and a depth. It is used as a stack (\<^verbatim>\<open>push\<close> and \<^verbatim>\<open>pop\<close>); the
  head of the list is the top. \<open>depth\<close> is the field \<^verbatim>\<open>module.depth\<close> of every module, \<open>None\<close>
  when it is not a number.
\<close>

record depth_state =
  depth_queue :: "(mref \<times> nat) list"
  depth :: "mref \<Rightarrow> nat option"

text \<open>
  \<^verbatim>\<open>assignDepthToDependencyBlock(block, depth)\<close> walks the block and its nested blocks at once
  and pushes a closure for every dependency that has a module; the last one pushed is on top.
\<close>

definition assignDepthToDependencyBlock ::
  "block \<Rightarrow> nat \<Rightarrow> (mref \<times> nat) list \<Rightarrow> (mref \<times> nat) list" where
  "assignDepthToDependencyBlock b d q =
     rev (map (\<lambda>m. (m, d)) (targets (all_dependencies b))) @ q"

text \<open>One round of \<^verbatim>\<open>while(queue.length) queue.pop()()\<close>: \<^verbatim>\<open>assignDepthToModule(module, depth)\<close>.\<close>

definition assignDepth_step :: "graph \<Rightarrow> depth_state \<Rightarrow> depth_state" where
  "assignDepth_step g s =
     (case depth_queue s of
        [] \<Rightarrow> s
      | (m, d) # rest \<Rightarrow>
          (case depth s m of
             Some k \<Rightarrow>
               if k \<le> d then s\<lparr>depth_queue := rest\<rparr>
               else s\<lparr>depth_queue := assignDepthToDependencyBlock (block_of g m) (d + 1) rest,
                      depth := (depth s)(m \<mapsto> d)\<rparr>
           | None \<Rightarrow>
               s\<lparr>depth_queue := assignDepthToDependencyBlock (block_of g m) (d + 1) rest,
                 depth := (depth s)(m \<mapsto> d)\<rparr>))"

text \<open>
  \<^verbatim>\<open>assignDepth(module)\<close> on the depths \<open>dp\<close>: the depths when the queue is empty, \<open>None\<close>
  if that never happens.
\<close>

definition assignDepth :: "graph \<Rightarrow> mref \<Rightarrow> (mref \<Rightarrow> nat option) \<Rightarrow> (mref \<Rightarrow> nat option) option" where
  "assignDepth g root dp =
     map_option depth
       (while_option (\<lambda>s. depth_queue s \<noteq> []) (assignDepth_step g)
          \<lparr>depth_queue = [(root, 0)], depth = dp\<rparr>)"

text \<open>
  Depths are settled when they grow by at most one along every edge: a module with a
  depth has successors with depths, none more than one larger.
\<close>

definition settled :: "graph \<Rightarrow> (mref \<Rightarrow> nat option) \<Rightarrow> bool" where
  "settled g dp \<longleftrightarrow>
     (\<forall>m k. dp m = Some k \<longrightarrow>
        (\<forall>m' \<in> successors g m. \<exists>k'. dp m' = Some k' \<and> k' \<le> k + 1))"

text \<open>
  What the loop of \<^verbatim>\<open>assignDepth\<close> decreases, over a finite set \<open>U\<close> of modules: the number
  of modules without depth, the sum of the depths, and the length of the queue.
\<close>

definition depth_measure :: "mref set \<Rightarrow> depth_state \<Rightarrow> nat \<times> nat \<times> nat" where
  "depth_measure U s =
     (card {m \<in> U. depth s m = None},
      (\<Sum>m \<in> U. case depth s m of None \<Rightarrow> 0 | Some k \<Rightarrow> k),
      length (depth_queue s))"

text \<open>Every module that an edge of the graph leads to, and the root.\<close>

definition graph_modules :: "graph \<Rightarrow> mref \<Rightarrow> mref set" where
  "graph_modules g root = insert root (\<Union>b \<in> set g. set (targets (all_dependencies b)))"

text \<open>
  What holds during the loop of \<^verbatim>\<open>assignDepth\<close> that started from the depths \<open>dp0\<close>.
  Every depth in the queue or given to a module is the length of a path from the root,
  and depths only go down (\<open>depth_sound\<close>); a module with a depth has, for each of its
  successors, either a depth at most one larger or a queued closure with such a depth, and
  the same holds for the root and depth 0 (\<open>depth_complete\<close>).
\<close>

definition depth_sound :: "graph \<Rightarrow> mref \<Rightarrow> (mref \<Rightarrow> nat option) \<Rightarrow> depth_state \<Rightarrow> bool" where
  "depth_sound g root dp0 s \<longleftrightarrow>
     (\<forall>m d. (m, d) \<in> set (depth_queue s) \<longrightarrow> reaches g root m d) \<and>
     (\<forall>m k. depth s m = Some k \<longrightarrow> dp0 m = Some k \<or> reaches g root m k) \<and>
     (\<forall>m k0. dp0 m = Some k0 \<longrightarrow> (\<exists>k. depth s m = Some k \<and> k \<le> k0))"

definition depth_complete :: "graph \<Rightarrow> mref \<Rightarrow> depth_state \<Rightarrow> bool" where
  "depth_complete g root s \<longleftrightarrow>
     (\<forall>m k m'. depth s m = Some k \<and> m' \<in> successors g m \<longrightarrow>
        (\<exists>k'. depth s m' = Some k' \<and> k' \<le> k + 1) \<or>
        (\<exists>j. j \<le> k + 1 \<and> (m', j) \<in> set (depth_queue s))) \<and>
     (depth s root = Some 0 \<or> (root, 0) \<in> set (depth_queue s))"

text \<open>
  An example with a cycle: module 0 depends on module 2, module 2 has a variable whose
  dependency points back to module 0 and a dependency without module, and module 1 depends
  on module 0. \<open>example_first_depths\<close> are the depths after \<^verbatim>\<open>assignDepth\<close> for module 0.
\<close>

definition example_graph :: graph where
  "example_graph = [Block [] [Some 2] [], Block [] [Some 0] [], Block [[Some 0]] [None] []]"

definition example_first_depths :: "mref \<Rightarrow> nat option" where
  "example_first_depths = [0 \<mapsto> 0, 2 \<mapsto> 1]"

subsection \<open>GraphLabeller: assignIndex\<close>

text \<open>
  The queue of \<^verbatim>\<open>assignIndex\<close> holds four kinds of closures: enter a module
  (\<^verbatim>\<open>assignIndexToModule\<close>), leave it (\<^verbatim>\<open>module.index2 = nextFreeModuleIndex2++\<close>), look at a
  dependency (\<^verbatim>\<open>assignIndexToDependency\<close>) and enter a nested block
  (\<^verbatim>\<open>assignIndexToDependencyBlock\<close>). It is used as a stack; the head of the list is the top.
\<close>

datatype index_action =
  EnterModule mref | LeaveModule mref | EnterDependency "mref option" | EnterBlock block

text \<open>
  \<open>index\<close> and \<open>index2\<close> are the fields of every module (\<open>None\<close> when not a number), the
  two counters are those of the Compilation (\<^verbatim>\<open>seal\<close> sets them to 0 before the first call).
\<close>

record index_state =
  index_queue :: "index_action list"
  index :: "mref \<Rightarrow> nat option"
  index2 :: "mref \<Rightarrow> nat option"
  nextFreeModuleIndex :: nat
  nextFreeModuleIndex2 :: nat

text \<open>
  \<^verbatim>\<open>assignIndexToDependencyBlock(block)\<close>: the nested blocks are pushed from the last to the
  first, then the block's own dependencies from the last to the first, so the first
  dependency ends on top, and the blocks follow the dependencies.
\<close>

definition assignIndexToDependencyBlock :: "block \<Rightarrow> index_action list \<Rightarrow> index_action list" where
  "assignIndexToDependencyBlock b q =
     map EnterDependency (own_dependencies b) @ map EnterBlock (blk_blocks b) @ q"

text \<open>One round of \<^verbatim>\<open>while(queue.length) queue.pop()()\<close>.\<close>

definition assignIndex_step :: "graph \<Rightarrow> index_state \<Rightarrow> index_state" where
  "assignIndex_step g s =
     (case index_queue s of
        [] \<Rightarrow> s
      | EnterModule m # rest \<Rightarrow>
          (case index s m of
             None \<Rightarrow>
               s\<lparr>index := (index s)(m \<mapsto> nextFreeModuleIndex s),
                 nextFreeModuleIndex := nextFreeModuleIndex s + 1,
                 index_queue := assignIndexToDependencyBlock (block_of g m) (LeaveModule m # rest)\<rparr>
           | Some i \<Rightarrow> s\<lparr>index_queue := rest\<rparr>)
      | LeaveModule m # rest \<Rightarrow>
          s\<lparr>index2 := (index2 s)(m \<mapsto> nextFreeModuleIndex2 s),
            nextFreeModuleIndex2 := nextFreeModuleIndex2 s + 1,
            index_queue := rest\<rparr>
      | EnterDependency d # rest \<Rightarrow>
          (case d of
             Some m \<Rightarrow> s\<lparr>index_queue := EnterModule m # rest\<rparr>
           | None \<Rightarrow> s\<lparr>index_queue := rest\<rparr>)
      | EnterBlock b # rest \<Rightarrow> s\<lparr>index_queue := assignIndexToDependencyBlock b rest\<rparr>)"

text \<open>
  \<^verbatim>\<open>assignIndex(module)\<close>: a new queue with the closure that enters the module, then the
  loop. The result is the state when the queue is empty, \<open>None\<close> if that never happens.
\<close>

definition assignIndex :: "graph \<Rightarrow> mref \<Rightarrow> index_state \<Rightarrow> index_state option" where
  "assignIndex g root s =
     while_option (\<lambda>s. index_queue s \<noteq> []) (assignIndex_step g)
       (s\<lparr>index_queue := [EnterModule root]\<rparr>)"

text \<open>The modules that have an index, and those that got one since the state \<open>s0\<close>.\<close>

definition labelled :: "index_state \<Rightarrow> mref set" where
  "labelled s = {m. index s m \<noteq> None}"

definition newly_labelled :: "index_state \<Rightarrow> index_state \<Rightarrow> mref set" where
  "newly_labelled s0 s = {m. index s m \<noteq> None \<and> index s0 m = None}"

definition newly_left :: "index_state \<Rightarrow> index_state \<Rightarrow> mref set" where
  "newly_left s0 s = {m. index2 s m \<noteq> None \<and> index s0 m = None}"

text \<open>
  A state between two calls of \<^verbatim>\<open>assignIndex\<close>: the queue is empty, the successors of a
  module with an index have an index, and a module has \<^verbatim>\<open>index2\<close> exactly when it has
  \<^verbatim>\<open>index\<close>. A graph on which \<^verbatim>\<open>assignIndex\<close> has not run yet is such a state.
\<close>

definition well_labelled :: "graph \<Rightarrow> index_state \<Rightarrow> bool" where
  "well_labelled g s \<longleftrightarrow>
     index_queue s = [] \<and>
     (\<forall>m m'. index s m \<noteq> None \<and> m' \<in> successors g m \<longrightarrow> index s m' \<noteq> None) \<and>
     (\<forall>m. index2 s m \<noteq> None \<longleftrightarrow> index s m \<noteq> None)"

text \<open>The modules that the closures of a queue may still enter, and the modules it will leave.\<close>

fun action_targets :: "index_action \<Rightarrow> mref set" where
  "action_targets (EnterModule m) = {m}"
| "action_targets (LeaveModule m) = {}"
| "action_targets (EnterDependency d) = set (targets [d])"
| "action_targets (EnterBlock b) = set (targets (all_dependencies b))"

definition pending_modules :: "index_action list \<Rightarrow> mref set" where
  "pending_modules q = (\<Union>a \<in> set q. action_targets a)"

fun leaves :: "index_action list \<Rightarrow> mref list" where
  "leaves [] = []"
| "leaves (LeaveModule m # q) = m # leaves q"
| "leaves (a # q) = leaves q"

text \<open>The weight of a queue: what the loop has at most left to do without entering a module.\<close>

fun block_weight :: "block \<Rightarrow> nat" where
  "block_weight (Block vs ds bs) =
     1 + 2 * length (concat vs @ ds) + sum_list (map block_weight bs)"

fun action_weight :: "index_action \<Rightarrow> nat" where
  "action_weight (EnterModule m) = 1"
| "action_weight (LeaveModule m) = 1"
| "action_weight (EnterDependency d) = 2"
| "action_weight (EnterBlock b) = block_weight b"

definition index_measure :: "mref set \<Rightarrow> index_state \<Rightarrow> nat \<times> nat" where
  "index_measure U s =
     (card {m \<in> U. index s m = None}, sum_list (map action_weight (index_queue s)))"

text \<open>
  What holds during the loop of \<^verbatim>\<open>assignIndex\<close> that started from the state \<open>s0\<close>: the
  labels of \<open>s0\<close> are kept, the modules waiting to be left are exactly the new modules
  without \<^verbatim>\<open>index2\<close>, each once (\<open>index_frame\<close>); only modules reachable from the root are
  entered, and the successors of a new module have an index or are still to be entered, as
  is the root (\<open>index_reach\<close>); the counters have advanced by the number of new modules
  with \<^verbatim>\<open>index\<close> and with \<^verbatim>\<open>index2\<close> (\<open>index_count\<close>).
\<close>

definition index_frame :: "index_state \<Rightarrow> index_state \<Rightarrow> bool" where
  "index_frame s0 s \<longleftrightarrow>
     (\<forall>m. index s0 m \<noteq> None \<longrightarrow> index s m = index s0 m \<and> index2 s m = index2 s0 m) \<and>
     distinct (leaves (index_queue s)) \<and>
     (\<forall>m. m \<in> set (leaves (index_queue s)) \<longleftrightarrow>
        index s m \<noteq> None \<and> index s0 m = None \<and> index2 s m = None) \<and>
     (\<forall>m. index2 s m \<noteq> None \<longrightarrow> index s m \<noteq> None)"

definition index_reach :: "graph \<Rightarrow> mref \<Rightarrow> index_state \<Rightarrow> index_state \<Rightarrow> bool" where
  "index_reach g root s0 s \<longleftrightarrow>
     pending_modules (index_queue s) \<subseteq> reachable g root \<and>
     (\<forall>m. index s m \<noteq> None \<longrightarrow> index s0 m \<noteq> None \<or> m \<in> reachable g root) \<and>
     (\<forall>m. index s m \<noteq> None \<and> index s0 m = None \<longrightarrow>
        successors g m \<subseteq> labelled s \<union> pending_modules (index_queue s)) \<and>
     root \<in> labelled s \<union> pending_modules (index_queue s)"

definition index_count :: "index_state \<Rightarrow> index_state \<Rightarrow> bool" where
  "index_count s0 s \<longleftrightarrow>
     finite (newly_labelled s0 s) \<and>
     nextFreeModuleIndex s = nextFreeModuleIndex s0 + card (newly_labelled s0 s) \<and>
     nextFreeModuleIndex2 s = nextFreeModuleIndex2 s0 + card (newly_left s0 s)"

text \<open>
  The example graph before any call of \<^verbatim>\<open>assignIndex\<close>, and after the call for module 0:
  module 2 is entered second and left first.
\<close>

definition example_unlabelled :: index_state where
  "example_unlabelled =
     \<lparr>index_queue = [], index = Map.empty, index2 = Map.empty, nextFreeModuleIndex = 0,
      nextFreeModuleIndex2 = 0\<rparr>"

definition example_labelled :: index_state where
  "example_labelled =
     \<lparr>index_queue = [], index = [0 \<mapsto> 0, 2 \<mapsto> 1], index2 = [2 \<mapsto> 0, 0 \<mapsto> 1],
      nextFreeModuleIndex = 2, nextFreeModuleIndex2 = 2\<rparr>"

section \<open>Properties\<close>

subsection \<open>addModule\<close>

lemma rebuild_of_iff:
  "\<not> rebuild_of M c cm \<longleftrightarrow>
     (\<exists>ft ct. fileTimestamps c = Some ft \<and> contextTimestamps c = Some ct \<and>
        \<not> needRebuild M (heap c cm) ft ct)"
  by (auto simp: rebuild_of_def split: option.splits)

text \<open>
  C3. \<^verbatim>\<open>addModule\<close> returns \<^verbatim>\<open>false\<close> exactly when a module with the same identifier is
  already in \<^verbatim>\<open>_modules\<close>, and then changes nothing. Otherwise it returns a Module instance
  exactly when the cache has an entry under \<^verbatim>\<open>(cacheGroup || "m") + identifier\<close>, both
  timestamp maps are available and the cached module's \<^verbatim>\<open>needRebuild\<close> is false; the cached
  instance is then put into \<^verbatim>\<open>_modules\<close> and \<^verbatim>\<open>modules\<close> and its errors and warnings are
  appended to the compilation's. In every other case the given module is put into
  \<^verbatim>\<open>_modules\<close>, \<^verbatim>\<open>modules\<close> and, when there is a cache, the cache, and \<^verbatim>\<open>true\<close> is returned.
\<close>

theorem addModule_contract:
  assumes run: "addModule M m cacheGroup c = (r, c')"
  shows "(r = RFalse \<longleftrightarrow> modules_map c (identifier (heap c m)) \<noteq> None) \<and>
         (r = RFalse \<longrightarrow> c' = c) \<and>
         (\<forall>cm. r = RModule cm \<longleftrightarrow>
            modules_map c (identifier (heap c m)) = None \<and> reuse_cached M m cacheGroup c cm) \<and>
         (\<forall>cm. r = RModule cm \<longrightarrow>
            modules_map c' = (modules_map c)(identifier (heap c m) \<mapsto> cm) \<and>
            modules c' = modules c @ [cm] \<and>
            cache c' = cache c \<and>
            comp_errors c' = comp_errors c @ errors (heap c' cm) \<and>
            comp_warnings c' = comp_warnings c @ warnings (heap c' cm)) \<and>
         (r = RTrue \<longrightarrow>
            modules_map c' = (modules_map c)(identifier (heap c m) \<mapsto> m) \<and>
            modules c' = modules c @ [m] \<and>
            cache c' = map_option
              (\<lambda>t. t(cacheName_of cacheGroup (identifier (heap c m)) \<mapsto> m)) (cache c) \<and>
            comp_errors c' = comp_errors c \<and>
            comp_warnings c' = comp_warnings c)"
proof (cases "modules_map c (identifier (heap c m)) = None")
  case False
  with run have "r = RFalse" "c' = c"
    by (auto simp: addModule_def Let_def)
  with False show ?thesis by simp
next
  case fresh: True
  show ?thesis
  proof (cases "cache_lookup c (cacheName_of cacheGroup (identifier (heap c m)))")
    case None
    with run fresh show ?thesis
      by (auto simp: addModule_def Let_def reuse_cached_def split: option.splits)
  next
    case (Some cm)
    show ?thesis
    proof (cases "rebuild_of M c cm")
      case True
      then have "\<not> reuse_cached M m cacheGroup c x" for x
        using Some rebuild_of_iff [of M c cm] by (auto simp: reuse_cached_def)
      with run fresh Some True show ?thesis
        by (auto simp: addModule_def Let_def split: option.splits)
    next
      case False
      then have "reuse_cached M m cacheGroup c x \<longleftrightarrow> x = cm" for x
        using Some rebuild_of_iff [of M c cm] by (auto simp: reuse_cached_def)
      with run fresh Some False show ?thesis
        by (auto simp: addModule_def Let_def)
    qed
  qed
qed

theorem addModule_contract_witness:
  "fst (addModule example_methods 1 None example_store) = RModule 0 \<and>
   modules (snd (addModule example_methods 1 None example_store)) = [0] \<and>
   comp_errors (snd (addModule example_methods 1 None example_store)) = [example_error] \<and>
   comp_warnings (snd (addModule example_methods 1 None example_store)) = [example_warning]"
proof -
  obtain r c' where run: "addModule example_methods 1 None example_store = (r, c')"
    by (cases "addModule example_methods 1 None example_store")
  note contract = addModule_contract [OF run]
  have fresh: "modules_map example_store (identifier (heap example_store 1)) = None"
    by (simp add: example_store_def)
  have hit: "reuse_cached example_methods 1 None example_store 0"
    by (simp add: reuse_cached_def cache_lookup_def cacheName_of_def example_store_def
        example_methods_def)
  from contract fresh hit have r: "r = RModule 0"
    by blast
  with contract have
    "modules c' = modules example_store @ [0]"
    "comp_errors c' = comp_errors example_store @ errors (heap c' 0)"
    "comp_warnings c' = comp_warnings example_store @ warnings (heap c' 0)"
    by blast+
  moreover have "heap c' 0 = heap example_store 0"
    using run by (auto simp: addModule_def Let_def cache_lookup_def cacheName_of_def
        rebuild_of_def example_store_def example_methods_def)
  ultimately show ?thesis
    using run r by (simp add: example_store_def)
qed

subsection \<open>Module ids\<close>

text \<open>
  C2. The claim: after id assignment the ids of the modules are pairwise distinct, an id
  a module already carries (0 included) is never given to a module without id, and
  \<^verbatim>\<open>checkConstraints\<close> raises when two modules share an id. The code at a module list with
  the ids 0 and \<^verbatim>\<open>null\<close>: the test \<^verbatim>\<open>module1.id && ...\<close> skips the id 0, the second
  module is given 0 as well, and \<^verbatim>\<open>checkConstraints\<close>, which never writes its table, passes.
\<close>

theorem applyModuleIds_gives_zero_twice:
  "applyModuleIds None [Some (IdNum 0), None] = [Some (IdNum 0), Some (IdNum 0)] \<and>
   checkConstraints (\<lambda>ch. None) (applyModuleIds None [Some (IdNum 0), None]) [] = None"
  by code_simp

subsection \<open>Deduplicated builds\<close>

lemma coherent_init: "coherent init_coordinator"
  by (simp add: coherent_def init_coordinator_def)

lemma coherent_waitForBuildingFinished:
  "coherent s \<Longrightarrow> coherent (waitForBuildingFinished m cb s)"
  by (auto simp: coherent_def waitForBuildingFinished_def split: option.splits)

lemma coherent_buildModule:
  assumes "coherent s"
  shows "coherent (buildModule m optional orig deps cb s)"
proof (cases "buildingModules s m")
  case (Some r)
  with assms show ?thesis
    by (auto simp: coherent_def buildModule_def)
next
  case None
  from assms have reg: "\<And>b. b \<in> set (pending s) \<Longrightarrow>
      buildingModules s (b_module b) = Some (b_list b) \<and> b_list b < next_list s"
    by (auto simp: coherent_def list_all_iff)
  have fresh_m: "m \<notin> b_module ` set (pending s)"
    using reg None by force
  have fresh_r: "next_list s \<notin> b_list ` set (pending s)"
    using reg by force
  from assms fresh_m fresh_r reg None show ?thesis
    by (auto simp: coherent_def buildModule_def Let_def list_all_iff less_Suc_eq dom_def)
qed

lemma coherent_do_request: "coherent s \<Longrightarrow> coherent (do_request q s)"
  by (cases q) (simp_all add: coherent_buildModule coherent_waitForBuildingFinished)

lemma coherent_requests: "coherent s \<Longrightarrow> coherent (foldl (\<lambda>s' r. do_request r s') s qs)"
  by (induction qs arbitrary: s) (simp_all add: coherent_do_request)

lemma coherent_calls_update: "coherent (s\<lparr>calls := c\<rparr>) = coherent s"
  by (simp add: coherent_def)

lemma coherent_run_callback: "coherent s \<Longrightarrow> coherent (run_callback cb arg s)"
  by (simp add: run_callback_def coherent_requests coherent_calls_update)

lemma coherent_waiters:
  "coherent s \<Longrightarrow> coherent (foldl (\<lambda>s' w. run_waiter w err s') s ws)"
  by (induction ws arbitrary: s) (simp_all add: run_waiter_def coherent_run_callback)

lemma coherent_reports_update:
  "coherent (s\<lparr>co_errors := e\<rparr>) = coherent s"
  "coherent (s\<lparr>co_warnings := w\<rparr>) = coherent s"
  by (simp_all add: coherent_def)

lemma coherent_unregister:
  assumes "coherent s" and "pending s = before @ b # after"
  shows "coherent (s\<lparr>pending := before @ after,
                      buildingModules := (buildingModules s)(b_module b := None)\<rparr>)"
proof -
  from assms have d: "b_module b \<notin> b_module ` set (before @ after)"
    by (auto simp: coherent_def)
  have d': "b_module x \<noteq> b_module b" if "x \<in> set (before @ after)" for x
    using d that by (metis imageI)
  from assms d' show ?thesis
    by (auto simp: coherent_def list_all_iff dom_def)
qed

lemma build_done_unfold:
  "build_done R b err s =
     foldl (\<lambda>s' w. run_waiter w err s')
       ((if b_optional b
         then s\<lparr>co_warnings := co_warnings s @
                map (stamp (b_origin b) (b_dependencies b)) (errors_of R (b_module b)) @
                map (stamp (b_origin b) (b_dependencies b)) (warnings_of R (b_module b))\<rparr>
         else s\<lparr>co_errors := co_errors s @
                map (stamp (b_origin b) (b_dependencies b)) (errors_of R (b_module b)),
                co_warnings := co_warnings s @
                map (stamp (b_origin b) (b_dependencies b)) (warnings_of R (b_module b))\<rparr>)
        \<lparr>buildingModules := (buildingModules s)(b_module b := None)\<rparr>)
       (lists s (b_list b))"
  by (simp add: build_done_def Let_def)

lemma coherent_build_done:
  assumes "coherent s" and "pending s = before @ b # after"
  shows "coherent (build_done R b err (s\<lparr>pending := before @ after\<rparr>))"
proof -
  have "coherent (s\<lparr>pending := before @ after,
                   buildingModules := (buildingModules s)(b_module b := None)\<rparr>)"
    using assms by (rule coherent_unregister)
  then show ?thesis
    unfolding build_done_unfold
    by (intro coherent_waiters) (simp add: coherent_def)
qed

lemma coherent_step:
  assumes "coherent s" and "step R e s = Some s'"
  shows "coherent s'"
proof (cases e)
  case (Call q)
  with assms show ?thesis by (auto simp: coherent_do_request)
next
  case (Complete i err)
  with assms have i: "i < length (pending s)"
    by (auto split: if_splits)
  then have "pending s = take i (pending s) @ pending s ! i # drop (Suc i) (pending s)"
    by (rule id_take_nth_drop)
  from coherent_build_done [OF assms(1) this] assms(2) Complete i show ?thesis
    by auto
next
  case Tick
  with assms obtain cb rest where "ticks s = cb # rest" "s' = run_callback cb None (s\<lparr>ticks := rest\<rparr>)"
    by (auto split: list.splits)
  moreover from assms(1) have "coherent (s\<lparr>ticks := rest\<rparr>)"
    by (simp add: coherent_def)
  ultimately show ?thesis by (simp add: coherent_run_callback)
qed

lemma coherent_run:
  "coherent s \<Longrightarrow> run R es s = Some s' \<Longrightarrow> coherent s'"
  by (induction es arbitrary: s) (auto split: option.splits dest: coherent_step)

lemma calls_do_request: "calls (do_request q s) = calls s"
  by (cases q) (auto simp: buildModule_def waitForBuildingFinished_def Let_def split: option.splits)

lemma calls_requests: "calls (foldl (\<lambda>s' r. do_request r s') s qs) = calls s"
  by (induction qs arbitrary: s) (simp_all add: calls_do_request)

lemma calls_run_callback: "calls (run_callback cb arg s) = calls s @ [(cb_name cb, arg)]"
  by (simp add: run_callback_def calls_requests)

lemma calls_waiters:
  "calls (foldl (\<lambda>s' w. run_waiter w err s') s ws) =
     calls s @ map (\<lambda>w. (cb_name (waiter_callback w), waiter_arg w err)) ws"
  by (induction ws arbitrary: s) (simp_all add: run_waiter_def calls_run_callback)

lemma retired_do_request:
  assumes "retired r s"
  shows "retired r (do_request q s) \<and> lists (do_request q s) r = lists s r"
  using assms
  by (cases q)
    (auto simp: retired_def buildModule_def waitForBuildingFinished_def Let_def
      split: option.splits)

lemma retired_requests:
  "retired r s \<Longrightarrow>
     retired r (foldl (\<lambda>s' q. do_request q s') s qs) \<and>
     lists (foldl (\<lambda>s' q. do_request q s') s qs) r = lists s r"
proof (induction qs arbitrary: s)
  case Nil
  then show ?case by simp
next
  case (Cons q qs)
  from retired_do_request [OF Cons.prems, of q] Cons.IH [of "do_request q s"]
  show ?case by simp
qed

lemma retired_run_callback:
  assumes "retired r s"
  shows "retired r (run_callback cb arg s) \<and> lists (run_callback cb arg s) r = lists s r"
proof -
  from assms have "retired r (s\<lparr>calls := calls s @ [(cb_name cb, arg)]\<rparr>)"
    by (simp add: retired_def)
  from retired_requests [OF this] show ?thesis
    by (simp add: run_callback_def)
qed

lemma retired_waiters:
  "retired r s \<Longrightarrow>
     retired r (foldl (\<lambda>s' w. run_waiter w err s') s ws) \<and>
     lists (foldl (\<lambda>s' w. run_waiter w err s') s ws) r = lists s r"
proof (induction ws arbitrary: s)
  case Nil
  then show ?case by simp
next
  case (Cons w ws)
  from retired_run_callback [OF Cons.prems, of "waiter_callback w" "waiter_arg w err"]
    Cons.IH [of "run_waiter w err s"]
  show ?case by (simp add: run_waiter_def)
qed

lemma retired_unregister:
  assumes "coherent s" and "pending s = before @ b # after"
  shows "retired (b_list b) (s\<lparr>buildingModules := (buildingModules s)(b_module b := None)\<rparr>)"
proof -
  from assms have lt: "b_list b < next_list s"
    by (simp add: coherent_def)
  have "buildingModules s m' \<noteq> Some (b_list b)" if "m' \<noteq> b_module b" for m'
  proof
    assume reg: "buildingModules s m' = Some (b_list b)"
    with assms(1) obtain b' where b': "b' \<in> set (pending s)" "b_module b' = m'"
      by (auto simp: coherent_def)
    with assms(1) reg have "b_list b' = b_list b"
      by (auto simp: coherent_def list_all_iff)
    moreover from b' that assms(2) have "b' \<in> set (before @ after)"
      by auto
    moreover from assms have "b_list b \<notin> b_list ` set (before @ after)"
      by (auto simp: coherent_def)
    ultimately show False by (metis imageI)
  qed
  with lt show ?thesis
    by (auto simp: retired_def)
qed

lemma distinct_count_le_1:
  "distinct (map f xs) \<Longrightarrow> length (filter (\<lambda>x. f x = m) xs) \<le> 1"
proof (induction xs)
  case Nil
  then show ?case by simp
next
  case (Cons x xs)
  show ?case
  proof (cases "f x = m")
    case True
    with Cons.prems have "m \<notin> f ` set xs"
      by simp
    then have "\<And>y. y \<in> set xs \<Longrightarrow> f y \<noteq> m"
      by (metis imageI)
    then have "filter (\<lambda>x. f x = m) xs = []"
      by (simp add: filter_empty_conv)
    with True show ?thesis by simp
  next
    case False
    with Cons show ?thesis by simp
  qed
qed

lemma in_flight_le_1: "coherent s \<Longrightarrow> in_flight s m \<le> 1"
  using distinct_count_le_1 [of b_module "pending s" m]
  by (simp add: coherent_def in_flight_def)

lemma in_flight_registered:
  assumes "coherent s" and "buildingModules s m = Some r"
  shows "in_flight s m = 1"
proof -
  from assms obtain b where "b \<in> set (pending s)" "b_module b = m"
    by (auto simp: coherent_def)
  then have "filter (\<lambda>b. b_module b = m) (pending s) \<noteq> []"
    by (auto simp: filter_empty_conv)
  then have "0 < in_flight s m"
    by (simp add: in_flight_def)
  with in_flight_le_1 [OF assms(1), of m] show ?thesis by simp
qed

lemma complete_effect:
  assumes coh: "coherent s" and i: "i < length (pending s)"
    and s': "s' = build_done R (pending s ! i) err
                   (s\<lparr>pending := take i (pending s) @ drop (Suc i) (pending s)\<rparr>)"
  shows "buildingModules s (b_module (pending s ! i)) = Some (b_list (pending s ! i))"
    and "calls s' = calls s @
           map (\<lambda>w. (cb_name (waiter_callback w), waiter_arg w err))
             (lists s (b_list (pending s ! i)))"
    and "lists s' (b_list (pending s ! i)) = lists s (b_list (pending s ! i))"
    and "retired (b_list (pending s ! i)) s'"
proof -
  let ?b = "pending s ! i"
  from i have split: "pending s = take i (pending s) @ ?b # drop (Suc i) (pending s)"
    by (rule id_take_nth_drop)
  from coh i show "buildingModules s (b_module ?b) = Some (b_list ?b)"
    by (simp add: coherent_def list_all_length)
  show "calls s' = calls s @
           map (\<lambda>w. (cb_name (waiter_callback w), waiter_arg w err)) (lists s (b_list ?b))"
    unfolding s' build_done_unfold by (simp add: calls_waiters)
  from retired_unregister [OF coh split]
  have r: "retired (b_list ?b) (t\<lparr>buildingModules := (buildingModules s)(b_module ?b := None)\<rparr>)"
    if "next_list t = next_list s" for t :: coordinator
    using that by (simp add: retired_def)
  show "lists s' (b_list ?b) = lists s (b_list ?b)"
    unfolding s' build_done_unfold
    by (subst retired_waiters [THEN conjunct2]) (simp_all add: r)
  show "retired (b_list ?b) s'"
    unfolding s' build_done_unfold
    by (rule retired_waiters [THEN conjunct1]) (simp add: r)
qed

text \<open>
  C5. In every state the coordinator can reach, at most one build of a module is in flight.
  While one is in flight, a further \<^verbatim>\<open>buildModule\<close> for the module only appends its callback
  to the array registered for the module and starts nothing. When the build completes, the
  array of the completing build is the one registered for its module, every callback in it
  is called with the result of the build (the callers of \<^verbatim>\<open>buildModule\<close> are \<open>Direct\<close>
  elements and receive the error itself), and the entry is deleted before the callbacks run:
  whatever the callbacks do, the array has not grown and is registered nowhere afterwards.
\<close>

theorem buildModule_deduplicates:
  assumes "run R evs init_coordinator = Some s"
  shows "in_flight s m \<le> 1 \<and>
    (\<forall>r. buildingModules s m = Some r \<longrightarrow>
       in_flight s m = 1 \<and>
       buildModule m optional orig deps cb s =
         s\<lparr>lists := (lists s)(r := lists s r @ [Direct cb])\<rparr> \<and>
       in_flight (buildModule m optional orig deps cb s) m = 1) \<and>
    (\<forall>i s'. step R (Complete i err) s = Some s' \<longrightarrow>
       buildingModules s (b_module (pending s ! i)) = Some (b_list (pending s ! i)) \<and>
       calls s' = calls s @
         map (\<lambda>w. (cb_name (waiter_callback w), waiter_arg w err))
           (lists s (b_list (pending s ! i))) \<and>
       lists s' (b_list (pending s ! i)) = lists s (b_list (pending s ! i)) \<and>
       (\<forall>m'. buildingModules s' m' \<noteq> Some (b_list (pending s ! i))))"
proof -
  have coh: "coherent s"
    using coherent_init assms by (rule coherent_run)
  have "in_flight s m \<le> 1"
    using coh by (rule in_flight_le_1)
  moreover have "in_flight s m = 1 \<and>
       buildModule m optional orig deps cb s =
         s\<lparr>lists := (lists s)(r := lists s r @ [Direct cb])\<rparr> \<and>
       in_flight (buildModule m optional orig deps cb s) m = 1"
    if "buildingModules s m = Some r" for r
  proof -
    have "in_flight s m = 1"
      using coh that by (rule in_flight_registered)
    moreover have "buildModule m optional orig deps cb s =
         s\<lparr>lists := (lists s)(r := lists s r @ [Direct cb])\<rparr>"
      using that by (simp add: buildModule_def)
    ultimately show ?thesis
      by (simp add: in_flight_def)
  qed
  moreover have "buildingModules s (b_module (pending s ! i)) = Some (b_list (pending s ! i)) \<and>
       calls s' = calls s @
         map (\<lambda>w. (cb_name (waiter_callback w), waiter_arg w err))
           (lists s (b_list (pending s ! i))) \<and>
       lists s' (b_list (pending s ! i)) = lists s (b_list (pending s ! i)) \<and>
       (\<forall>m'. buildingModules s' m' \<noteq> Some (b_list (pending s ! i)))"
    if "step R (Complete i err) s = Some s'" for i s'
  proof -
    from that have i: "i < length (pending s)"
      and s': "s' = build_done R (pending s ! i) err
                   (s\<lparr>pending := take i (pending s) @ drop (Suc i) (pending s)\<rparr>)"
      by (auto split: if_splits)
    from complete_effect [OF coh i s'] show ?thesis
      by (simp add: retired_def)
  qed
  ultimately show ?thesis by blast
qed

lemma example_building_run:
  "run example_reports example_events init_coordinator = Some example_building"
  by (simp add: example_events_def example_building_def)

lemma example_building_fields:
  "buildingModules example_building 0 = Some 0"
  "pending example_building =
     [\<lparr>b_module = 0, b_list = 0, b_optional = False, b_origin = None, b_dependencies = None\<rparr>]"
  "lists example_building 0 = [Direct example_rebuilder, Direct (Callback 2 (\<lambda>err. []))]"
  "calls example_building = []"
  by (simp_all add: example_building_def buildModule_def init_coordinator_def Let_def)

theorem buildModule_deduplicates_witness:
  "run example_reports example_events init_coordinator = Some example_building \<and>
   in_flight example_building 0 = 1 \<and>
   (\<exists>s'. step example_reports (Complete 0 (Some (Error ''failed''))) example_building = Some s' \<and>
      calls s' = [(1, Some (Error ''failed'')), (2, Some (Error ''failed''))] \<and>
      lists s' 0 = lists example_building 0 \<and>
      buildingModules s' 0 \<noteq> Some 0)"
proof -
  note run = example_building_run
  note ded = buildModule_deduplicates [OF run, of 0 _ _ _ _ "Some (Error ''failed'')"]
  obtain s' where
    s': "step example_reports (Complete 0 (Some (Error ''failed''))) example_building = Some s'"
    by (simp add: example_building_fields)
  from ded example_building_fields(1) have "in_flight example_building 0 = 1"
    by blast
  moreover from ded s' have
    "calls s' = calls example_building @
         map (\<lambda>w. (cb_name (waiter_callback w), waiter_arg w (Some (Error ''failed''))))
           (lists example_building (b_list (pending example_building ! 0)))"
    "lists s' (b_list (pending example_building ! 0)) =
       lists example_building (b_list (pending example_building ! 0))"
    "buildingModules s' 0 \<noteq> Some (b_list (pending example_building ! 0))"
    by blast+
  ultimately show ?thesis
    using run s' by (simp add: example_building_fields example_rebuilder_def)
qed

lemma ticks_do_request: "\<exists>later. ticks (do_request q s) = ticks s @ later"
  by (cases q) (auto simp: buildModule_def waitForBuildingFinished_def Let_def split: option.splits)

lemma ticks_requests: "\<exists>later. ticks (foldl (\<lambda>s' r. do_request r s') s qs) = ticks s @ later"
proof (induction qs arbitrary: s)
  case Nil
  then show ?case by simp
next
  case (Cons q qs)
  obtain m1 where "ticks (do_request q s) = ticks s @ m1"
    using ticks_do_request by blast
  moreover obtain m2 where
    "ticks (foldl (\<lambda>s' r. do_request r s') (do_request q s) qs) = ticks (do_request q s) @ m2"
    using Cons.IH by blast
  ultimately show ?case by simp
qed

lemma ticks_run_callback: "\<exists>later. ticks (run_callback cb arg s) = ticks s @ later"
  using ticks_requests [of "s\<lparr>calls := calls s @ [(cb_name cb, arg)]\<rparr>" "cb_body cb arg"]
  by (simp add: run_callback_def)

lemma scheduled_tick_runs:
  "ticks s = ts @ cb # later \<Longrightarrow>
     \<exists>s'. run R (replicate (Suc (length ts)) Tick) s = Some s' \<and>
          last (calls s') = (cb_name cb, None)"
proof (induction ts arbitrary: s later)
  case Nil
  then show ?case by (simp add: calls_run_callback)
next
  case (Cons t ts)
  let ?s1 = "run_callback t None (s\<lparr>ticks := ts @ cb # later\<rparr>)"
  obtain extra where "ticks ?s1 = ts @ cb # (later @ extra)"
    using ticks_run_callback [of t None "s\<lparr>ticks := ts @ cb # later\<rparr>"] by auto
  from Cons.IH [OF this] Cons.prems show ?case by simp
qed

text \<open>
  C10. \<^verbatim>\<open>waitForBuildingFinished\<close> calls its callback without an error value. When a build
  of the module is in flight, the callback is appended as the closure \<^verbatim>\<open>() => callback()\<close>,
  and when that build completes, with an error or without, the callback is called after the
  earlier elements of the array and with no argument. When no build is registered, the
  callback is put at the end of the tick queue and is called with no argument when its
  tick runs.
\<close>

theorem waitForBuildingFinished_gives_no_error:
  assumes "run R evs init_coordinator = Some s"
  shows
    "(\<forall>r. buildingModules s m = Some r \<longrightarrow>
        waitForBuildingFinished m cb s = s\<lparr>lists := (lists s)(r := lists s r @ [NoArgs cb])\<rparr> \<and>
        (\<exists>i<length (pending s). b_module (pending s ! i) = m) \<and>
        (\<forall>i err s'. i < length (pending s) \<and> b_module (pending s ! i) = m \<and>
           step R (Complete i err) (waitForBuildingFinished m cb s) = Some s' \<longrightarrow>
           calls s' = calls s @
             map (\<lambda>w. (cb_name (waiter_callback w), waiter_arg w err)) (lists s r) @
             [(cb_name cb, None)])) \<and>
     (buildingModules s m = None \<longrightarrow>
        waitForBuildingFinished m cb s = s\<lparr>ticks := ticks s @ [cb]\<rparr> \<and>
        (\<exists>s'. run R (replicate (Suc (length (ticks s))) Tick) (waitForBuildingFinished m cb s) =
                Some s' \<and>
              last (calls s') = (cb_name cb, None)))"
proof -
  have coh: "coherent s"
    using coherent_init assms by (rule coherent_run)
  have joined: "waitForBuildingFinished m cb s =
          s\<lparr>lists := (lists s)(r := lists s r @ [NoArgs cb])\<rparr>"
    if "buildingModules s m = Some r" for r
    using that by (simp add: waitForBuildingFinished_def)
  have inflight: "\<exists>i<length (pending s). b_module (pending s ! i) = m"
    if "buildingModules s m = Some r" for r
  proof -
    from coh that obtain b where "b \<in> set (pending s)" "b_module b = m"
      by (auto simp: coherent_def)
    then show ?thesis by (auto simp: in_set_conv_nth)
  qed
  have completed: "calls s' = calls s @
             map (\<lambda>w. (cb_name (waiter_callback w), waiter_arg w err)) (lists s r) @
             [(cb_name cb, None)]"
    if reg: "buildingModules s m = Some r" and i: "i < length (pending s)"
      and m: "b_module (pending s ! i) = m"
      and st: "step R (Complete i err) (waitForBuildingFinished m cb s) = Some s'"
    for r i err s'
  proof -
    let ?w = "waitForBuildingFinished m cb s"
    have w: "?w = s\<lparr>lists := (lists s)(r := lists s r @ [NoArgs cb])\<rparr>"
      using reg by (rule joined)
    have cw: "coherent ?w"
      using coh by (rule coherent_waitForBuildingFinished)
    from i w have i': "i < length (pending ?w)" by simp
    from st i' have s': "s' = build_done R (pending ?w ! i) err
        (?w\<lparr>pending := take i (pending ?w) @ drop (Suc i) (pending ?w)\<rparr>)"
      by simp
    from coh i m reg have "b_list (pending s ! i) = r"
      by (auto simp: coherent_def list_all_length)
    with complete_effect(2) [OF cw i' s'] w show ?thesis by simp
  qed
  have scheduled: "waitForBuildingFinished m cb s = s\<lparr>ticks := ticks s @ [cb]\<rparr> \<and>
        (\<exists>s'. run R (replicate (Suc (length (ticks s))) Tick) (waitForBuildingFinished m cb s) =
                Some s' \<and>
              last (calls s') = (cb_name cb, None))"
    if "buildingModules s m = None"
  proof -
    from that have w: "waitForBuildingFinished m cb s = s\<lparr>ticks := ticks s @ [cb]\<rparr>"
      by (simp add: waitForBuildingFinished_def)
    then have "ticks (waitForBuildingFinished m cb s) = ticks s @ cb # []"
      by simp
    from scheduled_tick_runs [OF this] w show ?thesis by simp
  qed
  from joined inflight completed scheduled show ?thesis by blast
qed

theorem waitForBuildingFinished_gives_no_error_witness:
  "(\<exists>s'. step example_reports (Complete 0 (Some (Error ''failed'')))
            (waitForBuildingFinished 0 (Callback 7 (\<lambda>err. [])) example_building) = Some s' \<and>
         calls s' = [(1, Some (Error ''failed'')), (2, Some (Error ''failed'')), (7, None)]) \<and>
   (\<exists>s'. run example_reports [Tick]
            (waitForBuildingFinished 5 (Callback 7 (\<lambda>err. [])) example_building) = Some s' \<and>
         last (calls s') = (7, None))"
proof -
  let ?cb = "Callback 7 (\<lambda>err. [])"
  note joined = waitForBuildingFinished_gives_no_error
    [OF example_building_run, of 0 ?cb, THEN conjunct1, rule_format,
      OF example_building_fields(1)]
  note scheduled = waitForBuildingFinished_gives_no_error
    [OF example_building_run, of 5 ?cb, THEN conjunct2, rule_format]
  have w: "waitForBuildingFinished 0 ?cb example_building =
      example_building\<lparr>lists := (lists example_building)
        (0 := lists example_building 0 @ [NoArgs ?cb])\<rparr>"
    using joined by blast
  obtain s' where s': "step example_reports (Complete 0 (Some (Error ''failed'')))
            (waitForBuildingFinished 0 ?cb example_building) = Some s'"
    by (simp add: w example_building_fields)
  have "0 < length (pending example_building) \<and> b_module (pending example_building ! 0) = 0"
    by (simp add: example_building_fields)
  with joined s' have "calls s' = calls example_building @
      map (\<lambda>w. (cb_name (waiter_callback w), waiter_arg w (Some (Error ''failed''))))
        (lists example_building 0) @ [(cb_name ?cb, None)]"
    by blast
  then have first: "calls s' = [(1, Some (Error ''failed'')), (2, Some (Error ''failed'')), (7, None)]"
    by (simp add: example_building_fields example_rebuilder_def)
  have "buildingModules example_building 5 = None"
    by (simp add: example_building_def buildModule_def init_coordinator_def Let_def)
  from scheduled [OF this] have
    "\<exists>s'. run example_reports (replicate (Suc (length (ticks example_building))) Tick)
            (waitForBuildingFinished 5 ?cb example_building) = Some s' \<and>
          last (calls s') = (cb_name ?cb, None)"
    by blast
  moreover have "ticks example_building = []"
    by (simp add: example_building_def buildModule_def init_coordinator_def Let_def)
  ultimately have second: "\<exists>s'. run example_reports [Tick]
            (waitForBuildingFinished 5 ?cb example_building) = Some s' \<and>
          last (calls s') = (7, None)"
    by simp
  from s' first second show ?thesis by blast
qed

subsection \<open>A failing factory\<close>

lemma group_callback_frame:
  "fan_errors (group_callback i err st) = fan_errors st"
  "fan_warnings (group_callback i err st) = fan_warnings st"
  "group_calls (group_callback i err st) = group_calls st @ [(i, err)]"
  "released (group_callback i err st) = released st"
  by (simp_all add: group_callback_def fan_final_def Let_def split: option.splits)

text \<open>
  C7, as amended. When \<^verbatim>\<open>factory.create\<close> fails for a group while the fan-out is still
  live (\<^verbatim>\<open>_this\<close> is not null), exactly one ModuleNotFoundError is recorded: in
  \<^verbatim>\<open>warnings\<close> when every dependency of the group is optional, and then the group's
  callback is called without an error whatever \<^verbatim>\<open>bail\<close> is; in \<^verbatim>\<open>errors\<close> otherwise, and
  then the group's callback receives the error exactly when \<^verbatim>\<open>bail\<close> is set. When the
  fan-out has already completed (\<^verbatim>\<open>_this\<close> is null), the failure is dropped: nothing is
  recorded and the group's callback is not called.
\<close>

theorem factory_failure_recorded:
  "(live st \<and> isOptional deps \<longrightarrow>
      fan_warnings (factory_callback on_module module bail i deps (Failed err) st) =
        fan_warnings st @ [(new_ModuleNotFoundError module err deps)\<lparr>origin := Some module\<rparr>] \<and>
      fan_errors (factory_callback on_module module bail i deps (Failed err) st) = fan_errors st \<and>
      group_calls (factory_callback on_module module bail i deps (Failed err) st) =
        group_calls st @ [(i, None)]) \<and>
   (live st \<and> \<not> isOptional deps \<longrightarrow>
      fan_errors (factory_callback on_module module bail i deps (Failed err) st) =
        fan_errors st @ [(new_ModuleNotFoundError module err deps)\<lparr>origin := Some module\<rparr>] \<and>
      fan_warnings (factory_callback on_module module bail i deps (Failed err) st) =
        fan_warnings st \<and>
      group_calls (factory_callback on_module module bail i deps (Failed err) st) =
        group_calls st @
          [(i, if bail
               then Some ((new_ModuleNotFoundError module err deps)\<lparr>origin := Some module\<rparr>)
               else None)]) \<and>
   (live st \<longrightarrow>
      count_ModuleNotFound (factory_callback on_module module bail i deps (Failed err) st) =
        count_ModuleNotFound st + 1) \<and>
   (\<not> live st \<longrightarrow>
      fan_errors (factory_callback on_module module bail i deps (Failed err) st) = fan_errors st \<and>
      fan_warnings (factory_callback on_module module bail i deps (Failed err) st) =
        fan_warnings st \<and>
      group_calls (factory_callback on_module module bail i deps (Failed err) st) =
        group_calls st)"
  by (simp add: factory_callback_def errorOrWarningAndCallback_def errorAndCallback_def
      warningAndCallback_def group_callback_frame Let_def count_ModuleNotFound_def
      new_ModuleNotFoundError_def)

lemma example_first_failure_fields:
  "live (init_fanout 2)"
  "\<not> live example_first_failure"
  "count_ModuleNotFound example_first_failure = 1"
  by (simp_all add: example_first_failure_def init_fanout_def factory_callback_def
      errorOrWarningAndCallback_def errorAndCallback_def isOptional_def example_groups_def
      group_callback_def fan_final_def Let_def count_ModuleNotFound_def
      new_ModuleNotFoundError_def)

lemma example_second_failure_eq:
  "example_second_failure =
     example_first_failure\<lparr>released := released example_first_failure + 1\<rparr>"
  by (simp add: example_second_failure_def factory_callback_def example_first_failure_fields)

lemma count_ModuleNotFound_released:
  "count_ModuleNotFound (st\<lparr>released := n\<rparr>) = count_ModuleNotFound st"
  by (simp add: count_ModuleNotFound_def)

text \<open>
  The claim without the condition fails: with \<^verbatim>\<open>bail\<close> set, the failure of the first
  group completes the fan-out, and the failure of the second group records nothing.
\<close>

theorem factory_failure_after_bail_counterexample:
  "live (init_fanout 2) \<and> \<not> live example_first_failure \<and>
   count_ModuleNotFound example_first_failure = 1 \<and>
   count_ModuleNotFound example_second_failure = 1 \<and>
   fan_errors example_second_failure = fan_errors example_first_failure \<and>
   fan_warnings example_second_failure = fan_warnings example_first_failure \<and>
   group_calls example_second_failure = group_calls example_first_failure"
  by (simp add: example_first_failure_fields example_second_failure_eq
      count_ModuleNotFound_released)

theorem factory_failure_recorded_witness:
  "live (init_fanout 2) \<and> \<not> isOptional (example_groups ! 0) \<and>
   count_ModuleNotFound example_first_failure = count_ModuleNotFound (init_fanout 2) + 1 \<and>
   group_calls example_first_failure =
     [(0, Some \<lparr>what = ModuleNotFoundError 0 (Error ''a'') [0], origin = Some 0,
                dependencies = None\<rparr>)] \<and>
   \<not> live example_first_failure \<and>
   fan_errors example_second_failure = fan_errors example_first_failure"
proof -
  have l: "live (init_fanout 2)" and n: "\<not> isOptional (example_groups ! 0)"
    by (simp_all add: init_fanout_def isOptional_def example_groups_def)
  note first = factory_failure_recorded
    [of "init_fanout 2" "example_groups ! 0" "\<lambda>m st. st" 0 True 0 "Error ''a''",
      folded example_first_failure_def]
  note second = factory_failure_recorded
    [of example_first_failure "example_groups ! 1" "\<lambda>m st. st" 0 True 1 "Error ''b''",
      folded example_second_failure_def]
  from first l n have
    "count_ModuleNotFound example_first_failure = count_ModuleNotFound (init_fanout 2) + 1"
    "group_calls example_first_failure = group_calls (init_fanout 2) @
       [(0, Some ((new_ModuleNotFoundError 0 (Error ''a'') (example_groups ! 0))
                    \<lparr>origin := Some 0\<rparr>))]"
    by simp_all
  moreover from second example_first_failure_fields(2) have
    "fan_errors example_second_failure = fan_errors example_first_failure"
    by simp
  ultimately show ?thesis
    using l n example_first_failure_fields(2)
    by (simp add: init_fanout_def new_ModuleNotFoundError_def example_groups_def)
qed

subsection \<open>The slot of an entry\<close>

lemma remove_slot_last:
  assumes "r \<notin> set xs"
  shows "remove_slot r (xs @ [r]) = xs"
  using assms by (simp add: remove_slot_def remove1_append)

lemma addModuleChain_frame:
  assumes "addModuleChain bail dep (\<lambda>m s. s\<lparr>entries := entries s @ [m]\<rparr>) env st = (st2, out)"
  shows "preparedChunks st2 = preparedChunks st \<and> slots st2 = slots st \<and>
         next_slot st2 = next_slot st"
  using assms
  by (auto simp: addModuleChain_def chain_errorAndCallback_def moduleReady_def
      split: chain_env.splits option.splits if_splits)

lemma addModuleChain_outcome:
  assumes "addModuleChain bail dep onModule env st = (st2, Called err module)"
  shows "(err \<noteq> None \<longleftrightarrow> ends_with_error bail env) \<and> (err \<noteq> None \<longrightarrow> module = None)"
  using assms
  by (auto simp: addModuleChain_def chain_errorAndCallback_def moduleReady_def
      split: chain_env.splits option.splits if_splits)

text \<open>
  C8, as amended. When \<^verbatim>\<open>addEntry\<close> calls its callback without an error, either a module
  was produced and the reserved slot is in \<^verbatim>\<open>preparedChunks\<close> with that module, or no
  module was produced and the slot has been removed. When it calls the callback with an
  error (the factory or the build failed with \<^verbatim>\<open>bail\<close> set, or the processing of the
  module's dependencies ended with an error), no module is passed and the slot stays in
  \<^verbatim>\<open>preparedChunks\<close> with its module still null.
\<close>

theorem addEntry_slot:
  assumes alloc: "slots_allocated st"
    and run: "addEntry bail entry name env st = (st', Called err module)"
  shows "(err = None \<and> module \<noteq> None \<longrightarrow>
            next_slot st \<in> set (preparedChunks st') \<and>
            slot_module (slots st' (next_slot st)) = module) \<and>
         (err = None \<and> module = None \<longrightarrow>
            next_slot st \<notin> set (preparedChunks st') \<and>
            preparedChunks st' = preparedChunks st) \<and>
         (err \<noteq> None \<longrightarrow>
            module = None \<and>
            preparedChunks st' = preparedChunks st @ [next_slot st] \<and>
            slot_module (slots st' (next_slot st)) = None) \<and>
         (err \<noteq> None \<longleftrightarrow> ends_with_error bail env)"
proof -
  let ?r = "next_slot st"
  let ?st1 = "st\<lparr>slots := (slots st)(?r := \<lparr>slot_name = name, slot_module = None\<rparr>),
                  preparedChunks := preparedChunks st @ [?r],
                  next_slot := ?r + 1\<rparr>"
  obtain st2 out where
    chain: "addModuleChain bail entry (\<lambda>m s. s\<lparr>entries := entries s @ [m]\<rparr>) env ?st1 = (st2, out)"
    by (cases "addModuleChain bail entry (\<lambda>m s. s\<lparr>entries := entries s @ [m]\<rparr>) env ?st1")
  from run chain obtain err2 module2 where
    out: "out = Called err2 module2"
    and cb: "addEntry_callback ?r err2 module2 st2 = (st', Called err module)"
    by (cases out) (auto simp: addEntry_def Let_def)
  from addModuleChain_frame [OF chain] have
    frame: "preparedChunks st2 = preparedChunks st @ [?r]"
      "slots st2 = (slots st)(?r := \<lparr>slot_name = name, slot_module = None\<rparr>)"
    by simp_all
  from alloc have fresh: "?r \<notin> set (preparedChunks st)"
    by (auto simp: slots_allocated_def list_all_iff)
  from chain out addModuleChain_outcome have
    env: "(err2 \<noteq> None \<longleftrightarrow> ends_with_error bail env) \<and> (err2 \<noteq> None \<longrightarrow> module2 = None)"
    by blast
  show ?thesis
  proof (cases err2)
    case (Some e)
    with cb frame env show ?thesis
      by (auto simp: addEntry_callback_def)
  next
    case None
    show ?thesis
    proof (cases module2)
      case (Some m)
      with cb frame env None show ?thesis
        by (auto simp: addEntry_callback_def)
    next
      case no_module: None
      with cb frame env None fresh show ?thesis
        by (auto simp: addEntry_callback_def remove_slot_last)
    qed
  qed
qed

lemma example_bail_run:
  "addEntry True 0 ''main'' (FactoryFailed (Error ''x'')) init_entries =
     (init_entries\<lparr>slots := (slots init_entries)(0 := \<lparr>slot_name = ''main'', slot_module = None\<rparr>),
        preparedChunks := [0], next_slot := 1\<rparr>,
      Called (Some \<lparr>what = EntryModuleNotFoundError (Error ''x''), origin = None,
                    dependencies = None\<rparr>) None)"
  by (simp add: addEntry_def addModuleChain_def chain_errorAndCallback_def
      addEntry_callback_def init_entries_def Let_def)

text \<open>
  The claim for a factory failure with \<^verbatim>\<open>bail\<close> set fails: the callback is called with
  the error, no module was produced, and the slot is still in \<^verbatim>\<open>preparedChunks\<close>.
\<close>

theorem addEntry_bail_keeps_slot_counterexample:
  "snd (addEntry True 0 ''main'' (FactoryFailed (Error ''x'')) init_entries) =
     Called (Some \<lparr>what = EntryModuleNotFoundError (Error ''x''), origin = None,
                   dependencies = None\<rparr>) None \<and>
   preparedChunks (fst (addEntry True 0 ''main'' (FactoryFailed (Error ''x'')) init_entries)) = [0] \<and>
   slot_module
     (slots (fst (addEntry True 0 ''main'' (FactoryFailed (Error ''x'')) init_entries)) 0) = None"
  by (simp add: example_bail_run)

theorem addEntry_slot_witness:
  "slots_allocated init_entries \<and>
   snd (addEntry False 0 ''main'' (AddedNew 5 None None) init_entries) = Called None (Some 5) \<and>
   slot_module (slots (fst (addEntry False 0 ''main'' (AddedNew 5 None None) init_entries)) 0) =
     Some 5 \<and>
   snd (addEntry False 0 ''main'' (FactoryFailed (Error ''x'')) init_entries) = Called None None \<and>
   preparedChunks (fst (addEntry False 0 ''main'' (FactoryFailed (Error ''x'')) init_entries)) = []"
proof -
  have alloc: "slots_allocated init_entries"
    by (simp add: slots_allocated_def init_entries_def)
  obtain s1 where r1: "addEntry False 0 ''main'' (AddedNew 5 None None) init_entries =
      (s1, Called None (Some 5))"
    by (simp add: addEntry_def addModuleChain_def moduleReady_def addEntry_callback_def Let_def)
  obtain s2 where r2: "addEntry False 0 ''main'' (FactoryFailed (Error ''x'')) init_entries =
      (s2, Called None None)"
    by (simp add: addEntry_def addModuleChain_def chain_errorAndCallback_def
        addEntry_callback_def Let_def)
  from addEntry_slot [OF alloc r1] have "slot_module (slots s1 (next_slot init_entries)) = Some 5"
    by simp
  moreover from addEntry_slot [OF alloc r2] have "preparedChunks s2 = preparedChunks init_entries"
    by simp
  ultimately show ?thesis
    using alloc r1 r2 by (simp add: init_entries_def)
qed

subsection \<open>Hashes\<close>

lemma hash_chunk_length:
  "length (snd (hash_chunk E opts ms st i)) = length (snd st)"
  by (cases st) (simp add: hash_chunk_def Let_def)

lemma hash_chunk_rendered:
  assumes "j < length (snd st)"
    and "j = i \<or> chunk_rendered (hashDigestLength opts) (snd st ! j)"
  shows "chunk_rendered (hashDigestLength opts) (snd (hash_chunk E opts ms st i) ! j)"
proof (cases "j = i")
  case True
  with assms(1) show ?thesis
    by (cases st) (simp add: hash_chunk_def Let_def chunk_rendered_def)
next
  case False
  with assms show ?thesis
    by (cases st) (simp add: hash_chunk_def Let_def)
qed

lemma hash_chunks_length:
  "length (snd (foldl (hash_chunk E opts ms) st ps)) = length (snd st)"
  by (induction ps arbitrary: st) (simp_all add: hash_chunk_length)

lemma hash_chunks_rendered:
  assumes "j < length (snd st)"
    and "j \<in> set ps \<or> chunk_rendered (hashDigestLength opts) (snd st ! j)"
  shows "chunk_rendered (hashDigestLength opts) (snd (foldl (hash_chunk E opts ms) st ps) ! j)"
  using assms
proof (induction ps arbitrary: st)
  case Nil
  then show ?case by simp
next
  case (Cons p ps)
  have len: "j < length (snd (hash_chunk E opts ms st p))"
    using Cons.prems(1) by (simp add: hash_chunk_length)
  show ?case
  proof (cases "j \<in> set ps")
    case True
    with Cons.IH [OF len] show ?thesis by simp
  next
    case False
    with Cons.prems have "j = p \<or> chunk_rendered (hashDigestLength opts) (snd st ! j)"
      by auto
    with Cons.prems(1) have
      "chunk_rendered (hashDigestLength opts) (snd (hash_chunk E opts ms st p) ! j)"
      by (rule hash_chunk_rendered)
    with Cons.IH [OF len] show ?thesis by simp
  qed
qed

lemma sorted_chunk_positions_set:
  "set (sorted_chunk_positions cs) = {0..<length cs}"
  by (auto simp: sorted_chunk_positions_def)

lemma createHash_chunks_rendered:
  "list_all (chunk_rendered (hashDigestLength (h_outputOptions c))) (h_chunks (createHash E c))"
proof -
  let ?opts = "h_outputOptions c"
  let ?st = "foldl (hash_chunk E ?opts (map (hash_module E ?opts) (h_modules c)))
      (salt_data ?opts @ mainTemplate_updateHash E @ chunkTemplate_updateHash E @
         concat (map snd (sort_key fst (moduleTemplates_updateHash E))) @
         concat (h_children c) @ concat (h_warnings c) @ concat (h_errors c), h_chunks c)
      (sorted_chunk_positions (h_chunks c))"
  have chunks: "h_chunks (createHash E c) = snd ?st"
    by (simp add: createHash_def Let_def)
  have len: "length (snd ?st) = length (h_chunks c)"
    by (simp add: hash_chunks_length)
  have "chunk_rendered (hashDigestLength ?opts) (snd ?st ! j)" if "j < length (h_chunks c)" for j
    using that by (intro hash_chunks_rendered) (simp_all add: sorted_chunk_positions_set)
  with len show ?thesis
    unfolding chunks by (simp add: list_all_length)
qed

lemma createHash_modules_rendered:
  "list_all (module_rendered (hashDigestLength (h_outputOptions c))) (h_modules (createHash E c))"
  by (simp add: createHash_def Let_def list_all_iff module_rendered_def hash_module_def)

text \<open>
  C6. \<^verbatim>\<open>createHash\<close> is deterministic: two compilations with the same modules, chunks,
  children, errors, warnings and output options, hashed with the same templates and the
  same digest, end with the same module hashes, chunk hashes, \<^verbatim>\<open>fullHash\<close> and \<^verbatim>\<open>hash\<close>,
  whatever their other fields and their earlier \<^verbatim>\<open>fullHash\<close> and \<^verbatim>\<open>hash\<close> are. Every
  module and every chunk then has a hash, its \<^verbatim>\<open>renderedHash\<close> is that hash cut to
  \<^verbatim>\<open>hashDigestLength\<close> characters, and \<^verbatim>\<open>hash\<close> is \<^verbatim>\<open>fullHash\<close> cut in the same way.
\<close>

theorem createHash_deterministic:
  assumes "h_modules c1 = h_modules c2" and "h_chunks c1 = h_chunks c2"
    and "h_children c1 = h_children c2"
    and "h_errors c1 = h_errors c2" and "h_warnings c1 = h_warnings c2"
    and "h_outputOptions c1 = h_outputOptions c2"
  shows "h_modules (createHash E c1) = h_modules (createHash E c2) \<and>
         h_chunks (createHash E c1) = h_chunks (createHash E c2) \<and>
         h_fullHash (createHash E c1) = h_fullHash (createHash E c2) \<and>
         h_hash (createHash E c1) = h_hash (createHash E c2) \<and>
         list_all (module_rendered (hashDigestLength (h_outputOptions c1)))
           (h_modules (createHash E c1)) \<and>
         list_all (chunk_rendered (hashDigestLength (h_outputOptions c1)))
           (h_chunks (createHash E c1)) \<and>
         h_hash (createHash E c1) =
           map_option (take (hashDigestLength (h_outputOptions c1))) (h_fullHash (createHash E c1))"
proof -
  have "h_modules (createHash E c1) = h_modules (createHash E c2)"
    "h_chunks (createHash E c1) = h_chunks (createHash E c2)"
    "h_fullHash (createHash E c1) = h_fullHash (createHash E c2)"
    "h_hash (createHash E c1) = h_hash (createHash E c2)"
    using assms by (simp_all add: createHash_def Let_def)
  moreover have "h_hash (createHash E c1) =
      map_option (take (hashDigestLength (h_outputOptions c1))) (h_fullHash (createHash E c1))"
    by (simp add: createHash_def Let_def)
  ultimately show ?thesis
    using createHash_modules_rendered [of c1 E] createHash_chunks_rendered [of c1 E]
    by simp
qed

theorem createHash_deterministic_witness:
  "hash_comp.more (example_comp 1 None) \<noteq> hash_comp.more (example_comp 2 (Some ''old'')) \<and>
   h_fullHash (createHash example_hash_env (example_comp 1 None)) =
     h_fullHash (createHash example_hash_env (example_comp 2 (Some ''old''))) \<and>
   h_hash (createHash example_hash_env (example_comp 1 None)) =
     h_hash (createHash example_hash_env (example_comp 2 (Some ''old''))) \<and>
   h_chunks (createHash example_hash_env (example_comp 1 None)) =
     h_chunks (createHash example_hash_env (example_comp 2 (Some ''old''))) \<and>
   h_modules (createHash example_hash_env (example_comp 1 None)) =
     h_modules (createHash example_hash_env (example_comp 2 (Some ''old''))) \<and>
   list_all (chunk_rendered 4) (h_chunks (createHash example_hash_env (example_comp 1 None)))"
proof -
  let ?c1 = "example_comp 1 None" and ?c2 = "example_comp 2 (Some ''old'')"
  have same: "h_modules ?c1 = h_modules ?c2" "h_chunks ?c1 = h_chunks ?c2"
    "h_children ?c1 = h_children ?c2" "h_errors ?c1 = h_errors ?c2"
    "h_warnings ?c1 = h_warnings ?c2" "h_outputOptions ?c1 = h_outputOptions ?c2"
    by (simp_all add: example_comp_def)
  have other: "hash_comp.more ?c1 \<noteq> hash_comp.more ?c2"
    by (simp add: example_comp_def)
  have n: "hashDigestLength (h_outputOptions ?c1) = 4"
    by (simp add: example_comp_def)
  note det = createHash_deterministic [OF same, of example_hash_env]
  from det have "list_all (chunk_rendered (hashDigestLength (h_outputOptions ?c1)))
      (h_chunks (createHash example_hash_env ?c1))"
    by blast
  then have "list_all (chunk_rendered 4) (h_chunks (createHash example_hash_env ?c1))"
    by (simp only: n)
  with det other show ?thesis
    by blast
qed

subsection \<open>Termination of the second part of the chunk graph\<close>

lemma set_add_all: "set (foldl (\<lambda>a c. set_add c a) acc xs) = set acc \<union> set xs"
  by (induction xs arbitrary: acc) (auto simp: set_add_def)

lemma traverse_edges_map:
  "minAvailableModulesMap (traverse_edges G c av s) = minAvailableModulesMap s"
  by (simp add: traverse_edges_def Let_def split: option.splits)

lemma traverse_edges_queue:
  "\<exists>new. queue2 (traverse_edges G c av s) = queue2 s @ new \<and> fst ` set new \<subseteq> edge_targets G"
proof (cases "map_of (chunkDependencies G) c")
  case None
  then show ?thesis by (simp add: traverse_edges_def)
next
  case (Some deps)
  then have "(c, deps) \<in> set (chunkDependencies G)"
    by (rule map_of_SomeD)
  then have "snd ` set deps \<subseteq> edge_targets G"
    by (force simp: edge_targets_def)
  then have "set (foldl (\<lambda>a c. set_add c a) [] (map snd (filter P deps))) \<subseteq> edge_targets G"
    for P
    by (auto simp: set_add_all)
  then have "c' \<in> edge_targets G"
    if "c' \<in> set (foldl (\<lambda>a c. set_add c a) [] (map snd (filter P deps)))" for c' P
    using that by blast
  with Some show ?thesis
    by (auto simp: traverse_edges_def Let_def)
qed

lemma shrinks_to_refl: "shrinks_to s s"
  by (simp add: shrinks_to_def)

lemma shrinks_to_trans: "shrinks_to s t \<Longrightarrow> shrinks_to t u \<Longrightarrow> shrinks_to s u"
  unfolding shrinks_to_def by (meson order_trans)

lemma filter_member_eq:
  "\<not> list_ex (\<lambda>m. m \<notin> set av) old \<Longrightarrow> filter (\<lambda>m. m \<in> set av) old = old"
  by (induction old) auto

lemma filter_member_shorter:
  "list_ex (\<lambda>m. m \<notin> set av) old \<Longrightarrow> length (filter (\<lambda>m. m \<in> set av) old) < length old"
  by (induction old) (auto simp: less_Suc_eq_le)

lemma phase2_step_shrinks: "shrinks_to s (phase2_step G s)"
proof (cases "queue2 s")
  case Nil
  then show ?thesis by (simp add: phase2_step_def shrinks_to_refl)
next
  case (Cons item rest)
  obtain c av where item: "item = (c, av)" by (cases item)
  show ?thesis
  proof (cases "minAvailableModulesMap s c")
    case None
    with Cons item show ?thesis
      by (auto simp: phase2_step_def shrinks_to_def traverse_edges_map)
  next
    case (Some old)
    with Cons item show ?thesis
      by (auto simp: phase2_step_def shrinks_to_def traverse_edges_map Let_def)
  qed
qed

lemma phase2_step_skip:
  assumes "queue2 s = (c, av) # rest" and "minAvailableModulesMap s c = Some old"
    and "set old \<subseteq> set av"
  shows "phase2_step G s = s\<lparr>queue2 := rest\<rparr>"
proof -
  from assms(3) have "\<not> list_ex (\<lambda>m. m \<notin> set av) old"
    by (auto simp: list_ex_iff)
  with assms(1,2) show ?thesis
    by (simp add: phase2_step_def Let_def)
qed

lemma unset_after_store:
  assumes "finite U" and "c \<in> U" and "m c = None"
  shows "card {x \<in> U. (m(c \<mapsto> v)) x = None} < card {x \<in> U. m x = None}"
proof -
  have eq: "{x \<in> U. (m(c \<mapsto> v)) x = None} = {x \<in> U. m x = None} - {c}"
    by auto
  have "finite {x \<in> U. m x = None}" "c \<in> {x \<in> U. m x = None}"
    using assms by simp_all
  then have "card ({x \<in> U. m x = None} - {c}) < card {x \<in> U. m x = None}"
    by (rule card_Diff1_less)
  then show ?thesis
    by (simp only: eq)
qed

lemma unset_after_shrink:
  assumes "m c = Some old"
  shows "{x \<in> U. (m(c \<mapsto> v)) x = None} = {x \<in> U. m x = None}"
  using assms by auto

lemma size_after_shrink:
  assumes "finite U" and "c \<in> U" and "m c = Some old" and "length v < length old"
  shows "(\<Sum>x \<in> U. case (m(c \<mapsto> v)) x of None \<Rightarrow> 0 | Some ms \<Rightarrow> length ms) <
         (\<Sum>x \<in> U. case m x of None \<Rightarrow> 0 | Some ms \<Rightarrow> length ms)"
proof -
  let ?f = "\<lambda>x. case m x of None \<Rightarrow> 0 | Some ms \<Rightarrow> length ms"
  let ?g = "\<lambda>x. case (m(c \<mapsto> v)) x of None \<Rightarrow> 0 | Some ms \<Rightarrow> length ms"
  have "sum ?g (U - {c}) = sum ?f (U - {c})"
    by (rule sum.cong) auto
  moreover have "sum ?g U = ?g c + sum ?g (U - {c})" "sum ?f U = ?f c + sum ?f (U - {c})"
    using assms(1,2) by (simp_all add: sum.remove)
  moreover have "?g c < ?f c"
    using assms(3,4) by simp
  ultimately show ?thesis by linarith
qed

lemma traverse_edges_measure:
  "unset_chunks U (traverse_edges G c av s) = unset_chunks U s"
  "stored_size U (traverse_edges G c av s) = stored_size U s"
  by (simp_all add: unset_chunks_def stored_size_def traverse_edges_map)

lemma traverse_edges_inside:
  assumes "fst ` set (queue2 s) \<subseteq> U" and "edge_targets G \<subseteq> U"
  shows "fst ` set (queue2 (traverse_edges G c av s)) \<subseteq> U"
proof -
  obtain new where "queue2 (traverse_edges G c av s) = queue2 s @ new"
    "fst ` set new \<subseteq> edge_targets G"
    using traverse_edges_queue by blast
  with assms show ?thesis by auto
qed

lemma phase2_step_decreases:
  assumes fin: "finite U" and inside: "fst ` set (queue2 s) \<subseteq> U"
    and targets: "edge_targets G \<subseteq> U" and busy: "queue2 s \<noteq> []"
  shows "(phase2_measure U (phase2_step G s), phase2_measure U s)
           \<in> less_than <*lex*> less_than <*lex*> less_than"
    and "fst ` set (queue2 (phase2_step G s)) \<subseteq> U"
proof -
  from busy obtain c av rest where q: "queue2 s = (c, av) # rest"
    by (cases "queue2 s") auto
  with inside have c: "c \<in> U" and rest: "fst ` set rest \<subseteq> U"
    by auto
  show "(phase2_measure U (phase2_step G s), phase2_measure U s)
           \<in> less_than <*lex*> less_than <*lex*> less_than"
  proof (cases "minAvailableModulesMap s c")
    case None
    have step: "phase2_step G s = traverse_edges G c av
        (s\<lparr>queue2 := rest,
           minAvailableModulesMap := (minAvailableModulesMap s)(c \<mapsto> av)\<rparr>)"
      using q None by (simp add: phase2_step_def)
    have "unset_chunks U (phase2_step G s) < unset_chunks U s"
      using unset_after_store [of U c "minAvailableModulesMap s" av] fin c None
      by (simp add: step traverse_edges_map unset_chunks_def)
    then show ?thesis by (simp add: phase2_measure_def)
  next
    case (Some old)
    show ?thesis
    proof (cases "list_ex (\<lambda>m. m \<notin> set av) old")
      case False
      with q Some have "phase2_step G s = s\<lparr>queue2 := rest\<rparr>"
        by (simp add: phase2_step_def)
      with q show ?thesis
        by (simp add: phase2_measure_def unset_chunks_def stored_size_def)
    next
      case True
      let ?v = "filter (\<lambda>m. m \<in> set av) old"
      have short: "length ?v < length old"
        using True by (rule filter_member_shorter)
      have step: "phase2_step G s = traverse_edges G c ?v
          (s\<lparr>queue2 := rest,
             minAvailableModulesMap := (minAvailableModulesMap s)(c \<mapsto> ?v)\<rparr>)"
        using q Some True by (simp add: phase2_step_def Let_def)
      have "unset_chunks U (phase2_step G s) = unset_chunks U s"
        using unset_after_shrink [of "minAvailableModulesMap s" c old U ?v] Some
        by (simp add: step traverse_edges_map unset_chunks_def)
      moreover have "stored_size U (phase2_step G s) < stored_size U s"
        using size_after_shrink [of U c "minAvailableModulesMap s" old ?v] fin c short Some
        by (simp add: step traverse_edges_map stored_size_def)
      ultimately show ?thesis by (simp add: phase2_measure_def)
    qed
  qed
  show "fst ` set (queue2 (phase2_step G s)) \<subseteq> U"
  proof (cases "minAvailableModulesMap s c")
    case None
    with q show ?thesis
      using rest targets by (simp add: phase2_step_def traverse_edges_inside)
  next
    case (Some old)
    with q show ?thesis
      using rest targets by (simp add: phase2_step_def Let_def traverse_edges_inside)
  qed
qed

lemma phase2_returns: "\<exists>s'. phase2 G s = Some s'"
proof -
  define U where "U = edge_targets G \<union> fst ` set (queue2 s)"
  have fin: "finite U"
    by (simp add: U_def edge_targets_def)
  have targets: "edge_targets G \<subseteq> U"
    by (simp add: U_def)
  have "\<exists>s'. while_option (\<lambda>s. queue2 s \<noteq> []) (phase2_step G) s = Some s'"
  proof (rule wf_rel_while_option_Some
      [where P = "\<lambda>s. fst ` set (queue2 s) \<subseteq> U"
        and R = "inv_image (less_than <*lex*> less_than <*lex*> less_than) (phase2_measure U)"])
    show "wf (inv_image (less_than <*lex*> less_than <*lex*> less_than) (phase2_measure U))"
      by (intro wf_inv_image wf_lex_prod wf_less_than)
    show "(phase2_step G t, t)
        \<in> inv_image (less_than <*lex*> less_than <*lex*> less_than) (phase2_measure U)"
      if "fst ` set (queue2 t) \<subseteq> U \<and> queue2 t \<noteq> []" for t :: "'a phase2_state"
      using that phase2_step_decreases(1) [OF fin _ targets, of t] by simp
    show "fst ` set (queue2 (phase2_step G t)) \<subseteq> U"
      if "fst ` set (queue2 t) \<subseteq> U \<and> queue2 t \<noteq> []" for t :: "'a phase2_state"
      using that phase2_step_decreases(2) [OF fin _ targets, of t] by simp
    show "fst ` set (queue2 s) \<subseteq> U"
      by (simp add: U_def)
  qed
  then show ?thesis by (simp add: phase2_def)
qed

text \<open>
  C4. For every finite graph of chunk dependencies, cycles included, and every queue and
  Map to start from, the loop of the second part terminates with an empty queue. The set
  stored for a chunk in \<^verbatim>\<open>minAvailableModulesMap\<close> only shrinks, in every round and so over
  the whole loop: a stored set stays stored and no element is added to it. A dequeued item
  from whose chunk's stored set nothing is removed is skipped: the round only takes the
  item off the queue.
\<close>

theorem phase2_terminates:
  "(\<exists>s'. phase2 G s = Some s' \<and> queue2 s' = [] \<and> shrinks_to s s') \<and>
   shrinks_to s (phase2_step G s) \<and>
   (\<forall>c av rest old.
      queue2 s = (c, av) # rest \<and> minAvailableModulesMap s c = Some old \<and>
      set old \<subseteq> set av \<longrightarrow>
      phase2_step G s = s\<lparr>queue2 := rest\<rparr>)"
proof -
  obtain s' where s': "phase2 G s = Some s'"
    using phase2_returns by blast
  then have loop: "while_option (\<lambda>s. queue2 s \<noteq> []) (phase2_step G) s = Some s'"
    by (simp add: phase2_def)
  from while_option_stop [OF loop] have "queue2 s' = []"
    by simp
  moreover have "shrinks_to s s'"
  proof (rule while_option_rule [where P = "shrinks_to s", OF _ loop])
    show "shrinks_to s (phase2_step G t)" if "shrinks_to s t" for t
      using that phase2_step_shrinks by (rule shrinks_to_trans)
    show "shrinks_to s s" by (rule shrinks_to_refl)
  qed
  ultimately show ?thesis
    using s' phase2_step_shrinks [of s G] phase2_step_skip [of s _ _ _ _ G] by blast
qed

lemma example_phase2_run:
  "phase2 example_chunk_graph example_phase2_start =
     Some \<lparr>queue2 = [], minAvailableModulesMap = [0 \<mapsto> [], 2 \<mapsto> [], 1 \<mapsto> []],
           connections = [(0, (100, 1)), (2, (102, 1)), (1, (101, 0))]\<rparr>"
  by (simp add: phase2_def while_option_unfold example_chunk_graph_def example_phase2_start_def
      phase2_step_def traverse_edges_def Let_def set_add_def areModulesAvailable_def
      fun_upd_twist)

theorem phase2_terminates_witness:
  "(\<exists>s'. phase2 example_chunk_graph example_phase2_start = Some s' \<and> queue2 s' = [] \<and>
         minAvailableModulesMap s' 1 = Some []) \<and>
   (\<exists>new. minAvailableModulesMap (phase2_step example_chunk_graph example_revisit) 1 = Some new \<and>
          set new \<subseteq> {10}) \<and>
   phase2_step example_chunk_graph example_no_progress = example_no_progress\<lparr>queue2 := []\<rparr>"
proof -
  from phase2_terminates [of example_chunk_graph example_phase2_start]
  obtain s' where "phase2 example_chunk_graph example_phase2_start = Some s'" "queue2 s' = []"
    by blast
  then have first: "\<exists>s'. phase2 example_chunk_graph example_phase2_start = Some s' \<and>
      queue2 s' = [] \<and> minAvailableModulesMap s' 1 = Some []"
    by (auto simp: example_phase2_run)
  have stored: "minAvailableModulesMap example_revisit 1 = Some [10]"
    by (simp add: example_revisit_def)
  from phase2_terminates [of example_chunk_graph example_revisit]
  have "shrinks_to example_revisit (phase2_step example_chunk_graph example_revisit)"
    by blast
  from this [unfolded shrinks_to_def, rule_format, OF stored]
  have second: "\<exists>new. minAvailableModulesMap (phase2_step example_chunk_graph example_revisit) 1 =
      Some new \<and> set new \<subseteq> {10}"
    by auto
  have "queue2 example_no_progress = (0, [11]) # [] \<and>
      minAvailableModulesMap example_no_progress 0 = Some [] \<and> set [] \<subseteq> set [11::nat]"
    by (simp add: example_no_progress_def)
  with phase2_terminates [of example_chunk_graph example_no_progress]
  have third: "phase2_step example_chunk_graph example_no_progress =
      example_no_progress\<lparr>queue2 := []\<rparr>"
    by blast
  from first second third show ?thesis by blast
qed

subsection \<open>Depths\<close>

lemma successors_in_graph_modules: "successors g m \<subseteq> graph_modules g root"
proof (cases "m < length g")
  case True
  then have "g ! m \<in> set g" by simp
  with True show ?thesis
    by (auto simp: successors_def block_of_def graph_modules_def)
next
  case False
  then show ?thesis
    by (simp add: successors_def block_of_def targets_def)
qed

lemma finite_graph_modules: "finite (graph_modules g root)"
  by (simp add: graph_modules_def)

lemma depth_sum_decreases:
  fixes dp :: "mref \<Rightarrow> nat option"
  assumes "finite U" and "c \<in> U" and "dp c = Some old" and "v < old"
  shows "(\<Sum>x \<in> U. case (dp(c \<mapsto> v)) x of None \<Rightarrow> 0 | Some k \<Rightarrow> k) <
         (\<Sum>x \<in> U. case dp x of None \<Rightarrow> 0 | Some k \<Rightarrow> k)"
proof -
  let ?f = "\<lambda>x. case dp x of None \<Rightarrow> 0 | Some k \<Rightarrow> k"
  let ?g = "\<lambda>x. case (dp(c \<mapsto> v)) x of None \<Rightarrow> 0 | Some k \<Rightarrow> k"
  have "sum ?g (U - {c}) = sum ?f (U - {c})"
    by (rule sum.cong) auto
  moreover have "sum ?g U = ?g c + sum ?g (U - {c})" "sum ?f U = ?f c + sum ?f (U - {c})"
    using assms(1,2) by (simp_all add: sum.remove)
  moreover have "?g c < ?f c"
    using assms(3,4) by simp
  ultimately show ?thesis by linarith
qed

lemma pushed_depth_modules:
  "fst ` set (assignDepthToDependencyBlock (block_of g m) d q) = successors g m \<union> fst ` set q"
  by (auto simp: assignDepthToDependencyBlock_def successors_def image_Un image_image)

lemma assignDepth_step_decreases:
  assumes fin: "finite U" and inside: "fst ` set (depth_queue s) \<subseteq> U"
    and closed: "\<And>m. successors g m \<subseteq> U" and busy: "depth_queue s \<noteq> []"
  shows "(depth_measure U (assignDepth_step g s), depth_measure U s)
           \<in> less_than <*lex*> less_than <*lex*> less_than"
    and "fst ` set (depth_queue (assignDepth_step g s)) \<subseteq> U"
proof -
  from busy obtain m d rest where q: "depth_queue s = (m, d) # rest"
    by (cases "depth_queue s") auto
  with inside have m: "m \<in> U" and rest: "fst ` set rest \<subseteq> U"
    by auto
  let ?push = "s\<lparr>depth_queue := assignDepthToDependencyBlock (block_of g m) (d + 1) rest,
                  depth := (depth s)(m \<mapsto> d)\<rparr>"
  have push_inside: "fst ` set (depth_queue ?push) \<subseteq> U"
    using rest closed [of m] by (simp add: pushed_depth_modules)
  show "(depth_measure U (assignDepth_step g s), depth_measure U s)
           \<in> less_than <*lex*> less_than <*lex*> less_than"
  proof (cases "depth s m")
    case None
    with q have step: "assignDepth_step g s = ?push"
      by (simp add: assignDepth_step_def)
    show ?thesis
      using unset_after_store [of U m "depth s" d] fin m None
      by (simp add: step depth_measure_def)
  next
    case (Some k)
    show ?thesis
    proof (cases "k \<le> d")
      case True
      with q Some have "assignDepth_step g s = s\<lparr>depth_queue := rest\<rparr>"
        by (simp add: assignDepth_step_def)
      with q show ?thesis
        by (simp add: depth_measure_def)
    next
      case False
      with q Some have step: "assignDepth_step g s = ?push"
        by (simp add: assignDepth_step_def)
      from False have "d < k" by simp
      then show ?thesis
        using unset_after_shrink [of "depth s" m k U d] Some
          depth_sum_decreases [of U m "depth s" k d] fin m
        by (simp add: step depth_measure_def)
    qed
  qed
  show "fst ` set (depth_queue (assignDepth_step g s)) \<subseteq> U"
    using q rest push_inside
    by (auto simp: assignDepth_step_def split: option.splits)
qed

lemma assignDepth_loop_returns:
  "\<exists>s'. while_option (\<lambda>s. depth_queue s \<noteq> []) (assignDepth_step g)
          \<lparr>depth_queue = [(root, 0)], depth = dp\<rparr> = Some s'"
proof -
  let ?U = "graph_modules g root"
  show ?thesis
  proof (rule wf_rel_while_option_Some
      [where P = "\<lambda>s. fst ` set (depth_queue s) \<subseteq> ?U"
        and R = "inv_image (less_than <*lex*> less_than <*lex*> less_than) (depth_measure ?U)"])
    show "wf (inv_image (less_than <*lex*> less_than <*lex*> less_than) (depth_measure ?U))"
      by (intro wf_inv_image wf_lex_prod wf_less_than)
    show "(assignDepth_step g t, t)
        \<in> inv_image (less_than <*lex*> less_than <*lex*> less_than) (depth_measure ?U)"
      if "fst ` set (depth_queue t) \<subseteq> ?U \<and> depth_queue t \<noteq> []" for t
      using that assignDepth_step_decreases(1)
        [OF finite_graph_modules [of g root] _ successors_in_graph_modules, of t]
      by simp
    show "fst ` set (depth_queue (assignDepth_step g t)) \<subseteq> ?U"
      if "fst ` set (depth_queue t) \<subseteq> ?U \<and> depth_queue t \<noteq> []" for t
      using that assignDepth_step_decreases(2)
        [OF finite_graph_modules [of g root] _ successors_in_graph_modules, of t]
      by simp
    show "fst ` set (depth_queue \<lparr>depth_queue = [(root, 0)], depth = dp\<rparr>) \<subseteq> ?U"
      by (simp add: graph_modules_def)
  qed
qed

lemma pushed_depth_items:
  "set (assignDepthToDependencyBlock (block_of g m) d q) =
     (\<lambda>t. (t, d)) ` successors g m \<union> set q"
  by (auto simp: assignDepthToDependencyBlock_def successors_def)

lemma assignDepth_step_cases:
  assumes "depth_queue s = (m, d) # rest"
  obtains (skip) k where "depth s m = Some k" and "k \<le> d"
      and "assignDepth_step g s = s\<lparr>depth_queue := rest\<rparr>"
    | (assign) "\<And>k. depth s m = Some k \<Longrightarrow> d < k"
      and "assignDepth_step g s =
             s\<lparr>depth_queue := assignDepthToDependencyBlock (block_of g m) (d + 1) rest,
               depth := (depth s)(m \<mapsto> d)\<rparr>"
proof (cases "depth s m")
  case None
  with assms show ?thesis
    by (intro assign) (simp_all add: assignDepth_step_def)
next
  case (Some k)
  show ?thesis
  proof (cases "k \<le> d")
    case True
    with assms Some show ?thesis
      by (intro skip [of k]) (simp_all add: assignDepth_step_def)
  next
    case False
    with assms Some show ?thesis
      by (intro assign) (simp_all add: assignDepth_step_def)
  qed
qed

lemma reaches_step: "reaches g r m d \<Longrightarrow> t \<in> successors g m \<Longrightarrow> reaches g r t (Suc d)"
  by (auto simp: reaches_def edges_def)

lemma depth_sound_step:
  assumes inv: "depth_sound g root dp0 s" and busy: "depth_queue s \<noteq> []"
  shows "depth_sound g root dp0 (assignDepth_step g s)"
proof -
  from busy obtain m d rest where q: "depth_queue s = (m, d) # rest"
    by (cases "depth_queue s") auto
  from inv q have md: "reaches g root m d"
    by (simp add: depth_sound_def)
  from q show ?thesis
  proof (cases rule: assignDepth_step_cases [where g = g])
    case (skip k)
    with inv q show ?thesis
      by (simp add: depth_sound_def)
  next
    case assign
    have lower: "\<exists>k. ((depth s)(m \<mapsto> d)) x = Some k \<and> k \<le> k0" if "dp0 x = Some k0" for x k0
    proof (cases "x = m")
      case True
      from inv that have "\<exists>k. depth s x = Some k \<and> k \<le> k0"
        unfolding depth_sound_def by blast
      then obtain k where "depth s x = Some k" "k \<le> k0"
        by blast
      with True assign(1) [of k] show ?thesis by simp
    next
      case False
      with inv that show ?thesis
        by (simp add: depth_sound_def)
    qed
    from inv q md lower show ?thesis
      unfolding assign(2) depth_sound_def
      by (auto simp: pushed_depth_items dest: reaches_step)
  qed
qed

lemma depth_completeI:
  assumes "\<And>x kx y. depth s x = Some kx \<Longrightarrow> y \<in> successors g x \<Longrightarrow>
      (\<exists>k'. depth s y = Some k' \<and> k' \<le> kx + 1) \<or>
      (\<exists>j. j \<le> kx + 1 \<and> (y, j) \<in> set (depth_queue s))"
    and "depth s root = Some 0 \<or> (root, 0) \<in> set (depth_queue s)"
  shows "depth_complete g root s"
  unfolding depth_complete_def using assms by blast

lemma depth_complete_step:
  assumes inv: "depth_complete g root s" and busy: "depth_queue s \<noteq> []"
  shows "depth_complete g root (assignDepth_step g s)"
proof -
  from busy obtain m d rest where q: "depth_queue s = (m, d) # rest"
    by (cases "depth_queue s") auto
  from inv q have edges_ok:
    "(\<exists>k'. depth s y = Some k' \<and> k' \<le> kx + 1) \<or>
     (y = m \<and> d \<le> kx + 1) \<or> (\<exists>j. j \<le> kx + 1 \<and> (y, j) \<in> set rest)"
    if "depth s x = Some kx" "y \<in> successors g x" for x kx y
    using that unfolding depth_complete_def by fastforce
  from inv q have root_ok:
    "depth s root = Some 0 \<or> (root = m \<and> d = 0) \<or> (root, 0) \<in> set rest"
    unfolding depth_complete_def by auto
  from q show ?thesis
  proof (cases rule: assignDepth_step_cases [where g = g])
    case (skip k)
    let ?s' = "s\<lparr>depth_queue := rest\<rparr>"
    have "depth_complete g root ?s'"
    proof (rule depth_completeI)
      fix x kx y
      assume "depth ?s' x = Some kx" "y \<in> successors g x"
      then have "depth s x = Some kx" "y \<in> successors g x" by simp_all
      from edges_ok [OF this] skip(1,2)
      show "(\<exists>k'. depth ?s' y = Some k' \<and> k' \<le> kx + 1) \<or>
            (\<exists>j. j \<le> kx + 1 \<and> (y, j) \<in> set (depth_queue ?s'))"
        by auto
    next
      from root_ok skip(1,2)
      show "depth ?s' root = Some 0 \<or> (root, 0) \<in> set (depth_queue ?s')"
        by auto
    qed
    then show ?thesis by (simp only: skip(3))
  next
    case assign
    let ?dp = "(depth s)(m \<mapsto> d)"
    let ?q = "assignDepthToDependencyBlock (block_of g m) (d + 1) rest"
    let ?s' = "s\<lparr>depth_queue := ?q, depth := ?dp\<rparr>"
    have sel: "depth ?s' = ?dp" "depth_queue ?s' = ?q" by simp_all
    have "depth_complete g root ?s'"
    proof (rule depth_completeI, unfold sel)
      fix x kx y
      assume x: "?dp x = Some kx" and y: "y \<in> successors g x"
      show "(\<exists>k'. ?dp y = Some k' \<and> k' \<le> kx + 1) \<or> (\<exists>j. j \<le> kx + 1 \<and> (y, j) \<in> set ?q)"
      proof (cases "x = m")
        case True
        with x y have "kx = d" "(y, d + 1) \<in> set ?q"
          by (auto simp: pushed_depth_items)
        then show ?thesis by auto
      next
        case False
        with x have "depth s x = Some kx" by simp
        from edges_ok [OF this y] show ?thesis
        proof (elim disjE exE conjE)
          fix k' assume k': "depth s y = Some k'" "k' \<le> kx + 1"
          show ?thesis
          proof (cases "y = m")
            case True
            with k' assign(1) [of k'] show ?thesis by auto
          next
            case False
            with k' show ?thesis by auto
          qed
        next
          assume "y = m" "d \<le> kx + 1"
          then show ?thesis by auto
        next
          fix j assume "j \<le> kx + 1" "(y, j) \<in> set rest"
          then show ?thesis by (auto simp: pushed_depth_items)
        qed
      qed
    next
      show "?dp root = Some 0 \<or> (root, 0) \<in> set ?q"
        using root_ok assign(1) [of 0] by (auto simp: pushed_depth_items)
    qed
    then show ?thesis by (simp only: assign(2))
  qed
qed

lemma settled_bound:
  assumes "settled g dp" and "dp r = Some 0"
  shows "reaches g r m n \<Longrightarrow> \<exists>k. dp m = Some k \<and> k \<le> n"
proof (induction n arbitrary: m)
  case 0
  with assms(2) show ?case by (simp add: reaches_def)
next
  case (Suc n)
  then obtain y where y: "reaches g r y n" and m: "m \<in> successors g y"
    by (auto simp: reaches_def edges_def)
  from Suc.IH [OF y] obtain k where k: "dp y = Some k" "k \<le> n"
    by blast
  with assms(1) m obtain k' where "dp m = Some k'" "k' \<le> k + 1"
    unfolding settled_def by blast
  with k show ?case by auto
qed

lemma reachable_distance:
  assumes "m \<in> reachable g r"
  shows "\<exists>n. distance g r m n"
proof -
  from assms obtain n where "reaches g r m n"
    by (auto simp: reachable_def reaches_def dest: rtrancl_imp_relpow)
  then have "reaches g r m (LEAST n. reaches g r m n)"
    "\<And>k. reaches g r m k \<Longrightarrow> (LEAST n. reaches g r m n) \<le> k"
    by (auto intro: LeastI Least_le)
  then show ?thesis
    unfolding distance_def by blast
qed

lemma reaches_reachable: "reaches g r m n \<Longrightarrow> m \<in> reachable g r"
  by (auto simp: reachable_def reaches_def dest: relpow_imp_rtrancl)

lemma depth_sound_init: "depth_sound g root dp \<lparr>depth_queue = [(root, 0)], depth = dp\<rparr>"
  by (simp add: depth_sound_def reaches_def)

lemma depth_complete_init:
  "settled g dp \<Longrightarrow> depth_complete g root \<lparr>depth_queue = [(root, 0)], depth = dp\<rparr>"
  unfolding settled_def depth_complete_def by simp blast

lemma depth_complete_final:
  assumes "depth_complete g root s" and "depth_queue s = []"
  shows "settled g (depth s)" and "depth s root = Some 0"
  using assms unfolding depth_complete_def settled_def by auto

text \<open>
  C1, as amended. For every finite module graph, cycles included, \<^verbatim>\<open>assignDepth(root)\<close>
  terminates. When the depths before the call are settled (no module has a depth yet, or
  the depths come from earlier calls of \<^verbatim>\<open>assignDepth\<close>), the root has depth 0
  afterwards, every module reachable from the root has a depth, which is the least number
  of edges on a path from the root to it or the depth it had before, whichever is smaller,
  the depth of every other module is unchanged, and the depths are settled again. On a
  graph without depths every reachable module so gets the least number of edges from the
  root.
\<close>

theorem assignDepth_minimal:
  assumes init: "settled g dp"
  shows "\<exists>dp'. assignDepth g root dp = Some dp' \<and> dp' root = Some 0 \<and> settled g dp' \<and>
     (\<forall>m \<in> reachable g root. \<exists>n. distance g root m n \<and>
        dp' m = Some (case dp m of None \<Rightarrow> n | Some k \<Rightarrow> min k n)) \<and>
     (\<forall>m. m \<notin> reachable g root \<longrightarrow> dp' m = dp m)"
proof -
  let ?s0 = "\<lparr>depth_queue = [(root, 0)], depth = dp\<rparr>"
  obtain s' where
    loop: "while_option (\<lambda>s. depth_queue s \<noteq> []) (assignDepth_step g) ?s0 = Some s'"
    using assignDepth_loop_returns by blast
  from while_option_stop [OF loop] have empty: "depth_queue s' = []"
    by simp
  have sound: "depth_sound g root dp s'"
    by (rule while_option_rule [where P = "depth_sound g root dp", OF _ loop])
      (simp_all add: depth_sound_step depth_sound_init)
  have "depth_complete g root s'"
    by (rule while_option_rule [where P = "depth_complete g root", OF _ loop])
      (simp_all add: depth_complete_step depth_complete_init init)
  from depth_complete_final [OF this empty]
  have settled: "settled g (depth s')" and root: "depth s' root = Some 0" .
  from sound have
    from_path: "\<And>m k. depth s' m = Some k \<Longrightarrow> dp m = Some k \<or> reaches g root m k" and
    below: "\<And>m k0. dp m = Some k0 \<Longrightarrow> \<exists>k. depth s' m = Some k \<and> k \<le> k0"
    unfolding depth_sound_def by blast+
  have near: "\<exists>n. distance g root m n \<and>
        depth s' m = Some (case dp m of None \<Rightarrow> n | Some k \<Rightarrow> min k n)"
    if "m \<in> reachable g root" for m
  proof -
    from that obtain n where n: "distance g root m n"
      using reachable_distance by blast
    then have path: "reaches g root m n" and least: "\<And>k. reaches g root m k \<Longrightarrow> n \<le> k"
      unfolding distance_def by blast+
    from settled_bound [OF settled root path] obtain k where k: "depth s' m = Some k" "k \<le> n"
      by blast
    have "k = (case dp m of None \<Rightarrow> n | Some k0 \<Rightarrow> min k0 n)"
    proof (cases "dp m")
      case None
      with from_path [OF k(1)] have "reaches g root m k" by simp
      with least k(2) None show ?thesis by force
    next
      case (Some k0)
      from below [OF Some] k(1) have "k \<le> k0" by simp
      moreover from from_path [OF k(1)] Some have "k = k0 \<or> n \<le> k"
        using least by auto
      ultimately show ?thesis using k(2) Some by auto
    qed
    with n k(1) show ?thesis by blast
  qed
  have far: "depth s' m = dp m" if "m \<notin> reachable g root" for m
  proof (cases "dp m")
    case None
    show ?thesis
    proof (cases "depth s' m")
      case (Some k)
      from from_path [OF Some] None that show ?thesis
        by (auto dest: reaches_reachable)
    qed (simp add: None)
  next
    case (Some k0)
    from below [OF Some] obtain k where k: "depth s' m = Some k" by blast
    from from_path [OF k] that have "dp m = Some k"
      by (auto dest: reaches_reachable)
    with k show ?thesis by simp
  qed
  from loop have "assignDepth g root dp = Some (depth s')"
    by (simp add: assignDepth_def)
  with root settled near far show ?thesis by blast
qed

lemma example_first_run:
  "assignDepth example_graph 0 Map.empty = Some example_first_depths"
  by (simp add: assignDepth_def while_option_unfold assignDepth_step_def
      assignDepthToDependencyBlock_def block_of_def targets_def example_graph_def
      example_first_depths_def)

lemma example_second_run:
  "assignDepth example_graph 1 example_first_depths = Some (example_first_depths(1 \<mapsto> 0))"
  by (simp add: assignDepth_def while_option_unfold assignDepth_step_def
      assignDepthToDependencyBlock_def block_of_def targets_def example_graph_def
      example_first_depths_def)

lemma example_edge: "(1, 0) \<in> edges example_graph"
  by (simp add: edges_def successors_def block_of_def targets_def example_graph_def)

lemma example_distance: "distance example_graph 1 0 1"
proof -
  have "reaches example_graph 1 0 1"
    using example_edge by (simp add: reaches_def)
  moreover have "1 \<le> k" if "reaches example_graph 1 0 k" for k
    using that by (cases k) (simp_all add: reaches_def)
  ultimately show ?thesis
    unfolding distance_def by blast
qed

text \<open>
  The claim for every call fails: after \<^verbatim>\<open>assignDepth\<close> for module 0, the call for module 1
  leaves module 0 at depth 0, one edge away from the root 1.
\<close>

theorem assignDepth_second_entry_counterexample:
  "assignDepth example_graph 0 Map.empty = Some example_first_depths \<and>
   assignDepth example_graph 1 example_first_depths = Some (example_first_depths(1 \<mapsto> 0)) \<and>
   (example_first_depths(1 \<mapsto> 0)) 0 = Some 0 \<and>
   distance example_graph 1 0 1"
  using example_first_run example_second_run example_distance
  by (simp add: example_first_depths_def)

theorem assignDepth_minimal_witness:
  "settled example_graph Map.empty \<and>
   assignDepth example_graph 0 Map.empty = Some example_first_depths \<and>
   example_first_depths 0 = Some 0 \<and>
   settled example_graph example_first_depths \<and>
   (\<exists>n. distance example_graph 0 2 n \<and> example_first_depths 2 = Some n) \<and>
   (\<exists>n. distance example_graph 1 0 n \<and> (example_first_depths(1 \<mapsto> 0)) 0 = Some (min 0 n))"
proof -
  have fresh: "settled example_graph Map.empty"
    by (simp add: settled_def)
  from assignDepth_minimal [OF fresh, of 0] example_first_run
  have first: "example_first_depths 0 = Some 0" "settled example_graph example_first_depths"
    "\<forall>m \<in> reachable example_graph 0. \<exists>n. distance example_graph 0 m n \<and>
        example_first_depths m = Some (case Map.empty m of None \<Rightarrow> n | Some k \<Rightarrow> min k n)"
    by auto
  have "(0, 2) \<in> edges example_graph"
    by (simp add: edges_def successors_def block_of_def targets_def example_graph_def)
  then have "2 \<in> reachable example_graph 0"
    by (auto simp: reachable_def)
  with first(3) have third: "\<exists>n. distance example_graph 0 2 n \<and> example_first_depths 2 = Some n"
    by fastforce
  from assignDepth_minimal [OF first(2), of 1] example_second_run
  have "\<forall>m \<in> reachable example_graph 1. \<exists>n. distance example_graph 1 m n \<and>
        (example_first_depths(1 \<mapsto> 0)) m =
          Some (case example_first_depths m of None \<Rightarrow> n | Some k \<Rightarrow> min k n)"
    by auto
  moreover have "0 \<in> reachable example_graph 1"
    using example_edge by (auto simp: reachable_def)
  ultimately have "\<exists>n. distance example_graph 1 0 n \<and>
        (example_first_depths(1 \<mapsto> 0)) 0 =
          Some (case example_first_depths 0 of None \<Rightarrow> n | Some k \<Rightarrow> min k n)"
    by blast
  with first(1) have fourth: "\<exists>n. distance example_graph 1 0 n \<and>
      (example_first_depths(1 \<mapsto> 0)) 0 = Some (min 0 n)"
    by simp
  from fresh example_first_run first(1,2) third fourth show ?thesis
    by blast
qed

subsection \<open>Indices\<close>

lemma targets_append: "targets (xs @ ys) = targets xs @ targets ys"
  by (simp add: targets_def)

lemma set_targets: "set (targets ds) = {m. Some m \<in> set ds}"
  by (induction ds) (auto simp: targets_def split: option.splits)

lemma block_targets:
  "set (targets (own_dependencies b)) \<union>
     (\<Union>b' \<in> set (blk_blocks b). set (targets (all_dependencies b'))) =
   set (targets (all_dependencies b))"
  by (cases b) (auto simp: own_dependencies_def set_targets)

lemma pending_append: "pending_modules (p @ q) = pending_modules p \<union> pending_modules q"
  by (simp add: pending_modules_def)

lemma pending_Cons: "pending_modules (a # q) = action_targets a \<union> pending_modules q"
  by (simp add: pending_modules_def)

lemma pending_Nil: "pending_modules [] = {}"
  by (simp add: pending_modules_def)

lemma pending_dependencies: "pending_modules (map EnterDependency ds) = set (targets ds)"
  by (auto simp: pending_modules_def set_targets)

lemma pending_blocks:
  "pending_modules (map EnterBlock bs) = (\<Union>b \<in> set bs. set (targets (all_dependencies b)))"
  by (simp add: pending_modules_def)

lemma pending_block:
  "pending_modules (assignIndexToDependencyBlock b q) =
     set (targets (all_dependencies b)) \<union> pending_modules q"
  unfolding block_targets [of b, symmetric]
  by (auto simp: assignIndexToDependencyBlock_def pending_append pending_dependencies
      pending_blocks)

lemma leaves_dependencies: "leaves (map EnterDependency ds @ q) = leaves q"
  by (induction ds) simp_all

lemma leaves_blocks: "leaves (map EnterBlock bs @ q) = leaves q"
  by (induction bs) simp_all

lemma leaves_block: "leaves (assignIndexToDependencyBlock b q) = leaves q"
  by (simp add: assignIndexToDependencyBlock_def leaves_dependencies leaves_blocks)

lemma weight_dependencies: "sum_list (map action_weight (map EnterDependency ds)) = 2 * length ds"
  by (induction ds) simp_all

lemma sum_list_const_2: "(\<Sum>x\<leftarrow>xs. 2) = 2 * length xs"
  by (induction xs) simp_all

lemma weight_block:
  "sum_list (map action_weight (assignIndexToDependencyBlock b q)) + 1 =
     block_weight b + sum_list (map action_weight q)"
  by (cases b)
    (simp add: assignIndexToDependencyBlock_def own_dependencies_def comp_def sum_list_const_2)

lemma assignIndex_step_cases:
  assumes "index_queue s \<noteq> []"
  obtains
    (enter) m rest where "index_queue s = EnterModule m # rest" and "index s m = None"
      and "assignIndex_step g s =
        s\<lparr>index := (index s)(m \<mapsto> nextFreeModuleIndex s),
          nextFreeModuleIndex := nextFreeModuleIndex s + 1,
          index_queue := assignIndexToDependencyBlock (block_of g m) (LeaveModule m # rest)\<rparr>"
  | (seen) m rest i where "index_queue s = EnterModule m # rest" and "index s m = Some i"
      and "assignIndex_step g s = s\<lparr>index_queue := rest\<rparr>"
  | (leave) m rest where "index_queue s = LeaveModule m # rest"
      and "assignIndex_step g s =
        s\<lparr>index2 := (index2 s)(m \<mapsto> nextFreeModuleIndex2 s),
          nextFreeModuleIndex2 := nextFreeModuleIndex2 s + 1,
          index_queue := rest\<rparr>"
  | (dependency) m rest where "index_queue s = EnterDependency (Some m) # rest"
      and "assignIndex_step g s = s\<lparr>index_queue := EnterModule m # rest\<rparr>"
  | (no_module) rest where "index_queue s = EnterDependency None # rest"
      and "assignIndex_step g s = s\<lparr>index_queue := rest\<rparr>"
  | (block) b rest where "index_queue s = EnterBlock b # rest"
      and "assignIndex_step g s = s\<lparr>index_queue := assignIndexToDependencyBlock b rest\<rparr>"
proof -
  from assms obtain a rest where q: "index_queue s = a # rest"
    by (cases "index_queue s") auto
  show ?thesis
  proof (cases a)
    case (EnterModule m)
    show ?thesis
    proof (cases "index s m")
      case None
      with q EnterModule show ?thesis
        by (intro enter [of m rest]) (simp_all add: assignIndex_step_def)
    next
      case (Some i)
      with q EnterModule show ?thesis
        by (intro seen [of m rest i]) (simp_all add: assignIndex_step_def)
    qed
  next
    case (LeaveModule m)
    with q show ?thesis
      by (intro leave [of m rest]) (simp_all add: assignIndex_step_def)
  next
    case (EnterDependency d)
    show ?thesis
    proof (cases d)
      case None
      with q EnterDependency show ?thesis
        by (intro no_module [of rest]) (simp_all add: assignIndex_step_def)
    next
      case (Some m)
      with q EnterDependency show ?thesis
        by (intro dependency [of m rest]) (simp_all add: assignIndex_step_def)
    qed
  next
    case (EnterBlock b)
    with q show ?thesis
      by (intro block [of b rest]) (simp_all add: assignIndex_step_def)
  qed
qed

lemma block_weight_positive: "0 < block_weight b"
  by (cases b) simp

lemma assignIndex_step_decreases:
  assumes fin: "finite U" and inside: "pending_modules (index_queue s) \<subseteq> U"
    and closed: "\<And>m. successors g m \<subseteq> U" and busy: "index_queue s \<noteq> []"
  shows "(index_measure U (assignIndex_step g s), index_measure U s)
           \<in> less_than <*lex*> less_than"
    and "pending_modules (index_queue (assignIndex_step g s)) \<subseteq> U"
proof -
  from busy show "(index_measure U (assignIndex_step g s), index_measure U s)
           \<in> less_than <*lex*> less_than"
  proof (cases rule: assignIndex_step_cases [where g = g])
    case (enter m rest)
    with inside have "m \<in> U"
      by (simp add: pending_Cons)
    from unset_after_store [of U m "index s" "nextFreeModuleIndex s"] fin this enter(2)
    show ?thesis
      by (simp add: enter(3) index_measure_def)
  next
    case (block b rest)
    with weight_block [of b rest] block_weight_positive [of b] show ?thesis
      by (simp add: index_measure_def)
  qed (simp_all add: index_measure_def)
  from busy show "pending_modules (index_queue (assignIndex_step g s)) \<subseteq> U"
  proof (cases rule: assignIndex_step_cases [where g = g])
    case (enter m rest)
    with inside closed [of m] show ?thesis
      by (simp add: pending_block pending_Cons successors_def)
  next
    case (block b rest)
    with inside show ?thesis
      by (simp add: pending_block pending_Cons)
  qed (use inside in \<open>simp_all add: pending_Cons targets_def\<close>)
qed

lemma assignIndex_returns: "\<exists>s'. assignIndex g root s = Some s'"
proof -
  let ?U = "graph_modules g root"
  have "\<exists>s'. while_option (\<lambda>s. index_queue s \<noteq> []) (assignIndex_step g)
          (s\<lparr>index_queue := [EnterModule root]\<rparr>) = Some s'"
  proof (rule wf_rel_while_option_Some
      [where P = "\<lambda>s. pending_modules (index_queue s) \<subseteq> ?U"
        and R = "inv_image (less_than <*lex*> less_than) (index_measure ?U)"])
    show "wf (inv_image (less_than <*lex*> less_than) (index_measure ?U))"
      by (intro wf_inv_image wf_lex_prod wf_less_than)
    show "(assignIndex_step g t, t) \<in> inv_image (less_than <*lex*> less_than) (index_measure ?U)"
      if "pending_modules (index_queue t) \<subseteq> ?U \<and> index_queue t \<noteq> []" for t
      using that assignIndex_step_decreases(1)
        [OF finite_graph_modules [of g root] _ successors_in_graph_modules, of t]
      by simp
    show "pending_modules (index_queue (assignIndex_step g t)) \<subseteq> ?U"
      if "pending_modules (index_queue t) \<subseteq> ?U \<and> index_queue t \<noteq> []" for t
      using that assignIndex_step_decreases(2)
        [OF finite_graph_modules [of g root] _ successors_in_graph_modules, of t]
      by simp
    show "pending_modules (index_queue (s\<lparr>index_queue := [EnterModule root]\<rparr>)) \<subseteq> ?U"
      by (simp add: pending_Cons pending_Nil graph_modules_def)
  qed
  then show ?thesis by (simp add: assignIndex_def)
qed

lemma index_frame_step:
  assumes inv: "index_frame s0 s" and busy: "index_queue s \<noteq> []"
  shows "index_frame s0 (assignIndex_step g s)"
proof -
  from inv have
    kept: "\<And>x. index s0 x \<noteq> None \<Longrightarrow> index s x = index s0 x \<and> index2 s x = index2 s0 x" and
    once: "distinct (leaves (index_queue s))" and
    waiting: "\<And>x. x \<in> set (leaves (index_queue s)) \<longleftrightarrow>
        index s x \<noteq> None \<and> index s0 x = None \<and> index2 s x = None" and
    left: "\<And>x. index2 s x \<noteq> None \<Longrightarrow> index s x \<noteq> None"
    unfolding index_frame_def by blast+
  from busy show ?thesis
  proof (cases rule: assignIndex_step_cases [where g = g])
    case (enter m rest)
    have new: "index s0 m = None"
      using kept [of m] enter(2) by (cases "index s0 m") simp_all
    have unleft: "index2 s m = None"
      using left [of m] enter(2) by (cases "index2 s m") simp_all
    have lv: "leaves (index_queue s) = leaves rest"
      by (simp add: enter(1))
    have absent: "m \<notin> set (leaves rest)"
      using waiting [of m] enter(2) lv by simp
    show ?thesis
      unfolding enter(3) index_frame_def
      using kept once waiting left new unleft absent lv
      by (auto simp: leaves_block)
  next
    case (seen m rest i)
    with inv show ?thesis
      by (simp add: index_frame_def)
  next
    case (leave m rest)
    have lv: "leaves (index_queue s) = m # leaves rest"
      by (simp add: leave(1))
    from once lv have absent: "m \<notin> set (leaves rest)" and rest: "distinct (leaves rest)"
      by simp_all
    from waiting [of m] lv have m: "index s m \<noteq> None" "index s0 m = None"
      by simp_all
    have others: "x \<in> set (leaves rest) \<longleftrightarrow>
        index s x \<noteq> None \<and> index s0 x = None \<and> index2 s x = None" if "x \<noteq> m" for x
      using waiting [of x] lv that by simp
    show ?thesis
      unfolding leave(2) index_frame_def
      using kept left m absent rest others
      by auto
  next
    case (dependency m rest)
    with inv show ?thesis
      by (simp add: index_frame_def)
  next
    case (no_module rest)
    with inv show ?thesis
      by (simp add: index_frame_def)
  next
    case (block b rest)
    with inv show ?thesis
      by (simp add: index_frame_def leaves_block)
  qed
qed

lemma reachable_successors:
  assumes "m \<in> reachable g r"
  shows "successors g m \<subseteq> reachable g r"
  using assms by (auto simp: reachable_def edges_def intro: rtrancl_into_rtrancl)

lemma targets_single: "set (targets [d]) = (case d of None \<Rightarrow> {} | Some m \<Rightarrow> {m})"
  by (simp add: targets_def split: option.splits)

lemma index_reach_step:
  assumes inv: "index_reach g root s0 s" and busy: "index_queue s \<noteq> []"
  shows "index_reach g root s0 (assignIndex_step g s)"
proof -
  from inv have
    inside: "pending_modules (index_queue s) \<subseteq> reachable g root" and
    origin: "\<And>x. index s x \<noteq> None \<Longrightarrow> index s0 x \<noteq> None \<or> x \<in> reachable g root" and
    covered: "\<And>x. index s x \<noteq> None \<Longrightarrow> index s0 x = None \<Longrightarrow>
        successors g x \<subseteq> labelled s \<union> pending_modules (index_queue s)" and
    root: "root \<in> labelled s \<union> pending_modules (index_queue s)"
    unfolding index_reach_def by blast+
  from busy show ?thesis
  proof (cases rule: assignIndex_step_cases [where g = g])
    case (enter m rest)
    let ?s' = "s\<lparr>index := (index s)(m \<mapsto> nextFreeModuleIndex s),
          nextFreeModuleIndex := nextFreeModuleIndex s + 1,
          index_queue := assignIndexToDependencyBlock (block_of g m) (LeaveModule m # rest)\<rparr>"
    have old: "pending_modules (index_queue s) = insert m (pending_modules rest)"
      by (simp add: enter(1) pending_Cons)
    have new: "pending_modules (index_queue ?s') = successors g m \<union> pending_modules rest"
      by (simp add: pending_block pending_Cons successors_def)
    have lab: "labelled ?s' = insert m (labelled s)"
      by (auto simp: labelled_def)
    from inside old have m: "m \<in> reachable g root" by simp
    have "pending_modules (index_queue ?s') \<subseteq> reachable g root"
      using inside old reachable_successors [OF m] unfolding new by simp
    moreover have "index s0 x \<noteq> None \<or> x \<in> reachable g root" if "index ?s' x \<noteq> None" for x
      using that origin [of x] m by (cases "x = m") simp_all
    moreover have "successors g x \<subseteq> labelled ?s' \<union> pending_modules (index_queue ?s')"
      if "index ?s' x \<noteq> None" "index s0 x = None" for x
    proof (cases "x = m")
      case True
      then show ?thesis unfolding new by blast
    next
      case False
      with that covered [of x] show ?thesis
        unfolding new lab old by auto
    qed
    moreover have "root \<in> labelled ?s' \<union> pending_modules (index_queue ?s')"
      using root unfolding new lab old by auto
    ultimately show ?thesis
      unfolding enter(3) index_reach_def by blast
  next
    case (seen m rest i)
    let ?s' = "s\<lparr>index_queue := rest\<rparr>"
    have old: "pending_modules (index_queue s) = insert m (pending_modules rest)"
      by (simp add: seen(1) pending_Cons)
    have m: "m \<in> labelled s"
      by (simp add: labelled_def seen(2))
    have lab: "labelled ?s' = labelled s"
      by (simp add: labelled_def)
    have "pending_modules (index_queue ?s') \<subseteq> reachable g root"
      using inside old by simp
    moreover have "index s0 x \<noteq> None \<or> x \<in> reachable g root" if "index ?s' x \<noteq> None" for x
      using that origin [of x] by simp
    moreover have "successors g x \<subseteq> labelled ?s' \<union> pending_modules (index_queue ?s')"
      if "index ?s' x \<noteq> None" "index s0 x = None" for x
      using that covered [of x] m unfolding lab old by auto
    moreover have "root \<in> labelled ?s' \<union> pending_modules (index_queue ?s')"
      using root m unfolding lab old by auto
    ultimately show ?thesis
      unfolding seen(3) index_reach_def by blast
  next
    case (leave m rest)
    have "pending_modules (index_queue s) = pending_modules rest"
      by (simp add: leave(1) pending_Cons)
    with inv show ?thesis
      by (simp add: leave(2) index_reach_def labelled_def)
  next
    case (dependency m rest)
    have "pending_modules (index_queue s) = pending_modules (EnterModule m # rest)"
      by (simp add: dependency(1) pending_Cons targets_single)
    with inv show ?thesis
      by (simp add: dependency(2) index_reach_def labelled_def)
  next
    case (no_module rest)
    have "pending_modules (index_queue s) = pending_modules rest"
      by (simp add: no_module(1) pending_Cons targets_single)
    with inv show ?thesis
      by (simp add: no_module(2) index_reach_def labelled_def)
  next
    case (block b rest)
    have "pending_modules (index_queue s) = pending_modules (assignIndexToDependencyBlock b rest)"
      by (simp add: block(1) pending_Cons pending_block)
    with inv show ?thesis
      by (simp add: block(2) index_reach_def labelled_def)
  qed
qed

lemma index_count_step:
  assumes frame: "index_frame s0 s" and inv: "index_count s0 s" and busy: "index_queue s \<noteq> []"
  shows "index_count s0 (assignIndex_step g s)"
proof -
  from frame have
    kept: "\<And>x. index s0 x \<noteq> None \<Longrightarrow> index s x = index s0 x" and
    waiting: "\<And>x. x \<in> set (leaves (index_queue s)) \<Longrightarrow>
        index s x \<noteq> None \<and> index s0 x = None \<and> index2 s x = None" and
    left: "\<And>x. index2 s x \<noteq> None \<Longrightarrow> index s x \<noteq> None"
    unfolding index_frame_def by blast+
  from inv have fin: "finite (newly_labelled s0 s)"
    and n1: "nextFreeModuleIndex s = nextFreeModuleIndex s0 + card (newly_labelled s0 s)"
    and n2: "nextFreeModuleIndex2 s = nextFreeModuleIndex2 s0 + card (newly_left s0 s)"
    unfolding index_count_def by blast+
  have "newly_left s0 s \<subseteq> newly_labelled s0 s"
    using left by (auto simp: newly_left_def newly_labelled_def)
  with fin have fin2: "finite (newly_left s0 s)"
    by (rule rev_finite_subset)
  from busy show ?thesis
  proof (cases rule: assignIndex_step_cases [where g = g])
    case (enter m rest)
    let ?s' = "s\<lparr>index := (index s)(m \<mapsto> nextFreeModuleIndex s),
          nextFreeModuleIndex := nextFreeModuleIndex s + 1,
          index_queue := assignIndexToDependencyBlock (block_of g m) (LeaveModule m # rest)\<rparr>"
    have new: "index s0 m = None"
      using kept [of m] enter(2) by (cases "index s0 m") simp_all
    then have "newly_labelled s0 ?s' = insert m (newly_labelled s0 s)"
      by (auto simp: newly_labelled_def)
    moreover have "m \<notin> newly_labelled s0 s"
      by (simp add: newly_labelled_def enter(2))
    moreover have "newly_left s0 ?s' = newly_left s0 s"
      by (simp add: newly_left_def)
    ultimately show ?thesis
      unfolding enter(3) index_count_def using fin n1 n2 by simp
  next
    case (seen m rest i)
    with inv show ?thesis
      by (simp add: index_count_def newly_labelled_def newly_left_def)
  next
    case (leave m rest)
    let ?s' = "s\<lparr>index2 := (index2 s)(m \<mapsto> nextFreeModuleIndex2 s),
          nextFreeModuleIndex2 := nextFreeModuleIndex2 s + 1,
          index_queue := rest\<rparr>"
    from waiting [of m] have m: "index s0 m = None" "index2 s m = None"
      by (simp_all add: leave(1))
    then have "newly_left s0 ?s' = insert m (newly_left s0 s)"
      by (auto simp: newly_left_def)
    moreover have "m \<notin> newly_left s0 s"
      by (simp add: newly_left_def m)
    moreover have "newly_labelled s0 ?s' = newly_labelled s0 s"
      by (simp add: newly_labelled_def)
    ultimately show ?thesis
      unfolding leave(2) index_count_def using fin fin2 n1 n2 by simp
  next
    case (dependency m rest)
    with inv show ?thesis
      by (simp add: index_count_def newly_labelled_def newly_left_def)
  next
    case (no_module rest)
    with inv show ?thesis
      by (simp add: index_count_def newly_labelled_def newly_left_def)
  next
    case (block b rest)
    with inv show ?thesis
      by (simp add: index_count_def newly_labelled_def newly_left_def)
  qed
qed

lemma assignIndex_again:
  assumes "index_queue s = []" and "index s root \<noteq> None"
  shows "assignIndex g root s = Some s"
proof -
  from assms(2) obtain i where i: "index s root = Some i" by auto
  have "assignIndex_step g (s\<lparr>index_queue := [EnterModule root]\<rparr>) = s\<lparr>index_queue := []\<rparr>"
    by (simp add: assignIndex_step_def i)
  also have "\<dots> = s"
    using assms(1) by simp
  finally have step: "assignIndex_step g (s\<lparr>index_queue := [EnterModule root]\<rparr>) = s" .
  show ?thesis
    unfolding assignIndex_def
    by (subst while_option_unfold, simp add: step, subst while_option_unfold, simp add: assms(1))
qed

text \<open>
  C9. \<^verbatim>\<open>assignIndex(root)\<close> terminates on every finite graph, cycles included. Started
  between two calls (in particular on a graph without labels), it gives \<^verbatim>\<open>index\<close> and
  \<^verbatim>\<open>index2\<close> to every module reachable from the root that had none and keeps every label
  that was there. Each of these modules is labelled exactly once: every assignment takes
  the value of its counter and advances it by one, and each counter has advanced by the
  number of newly labelled modules. A second \<^verbatim>\<open>assignIndex(root)\<close> on the result changes
  nothing: no \<^verbatim>\<open>index\<close>, no \<^verbatim>\<open>index2\<close> and neither counter.
\<close>

theorem assignIndex_once:
  assumes init: "well_labelled g s"
  shows "\<exists>s'. assignIndex g root s = Some s' \<and> well_labelled g s' \<and>
      labelled s' = labelled s \<union> reachable g root \<and>
      (\<forall>m \<in> labelled s. index s' m = index s m \<and> index2 s' m = index2 s m) \<and>
      nextFreeModuleIndex s' = nextFreeModuleIndex s + card (reachable g root - labelled s) \<and>
      nextFreeModuleIndex2 s' = nextFreeModuleIndex2 s + card (reachable g root - labelled s) \<and>
      assignIndex g root s' = Some s'"
proof -
  let ?start = "s\<lparr>index_queue := [EnterModule root]\<rparr>"
  let ?P = "\<lambda>t. index_frame s t \<and> index_reach g root s t \<and> index_count s t"
  from init have
    closed0: "\<And>m m'. index s m \<noteq> None \<Longrightarrow> m' \<in> successors g m \<Longrightarrow> index s m' \<noteq> None" and
    both0: "\<And>m. index2 s m \<noteq> None \<longleftrightarrow> index s m \<noteq> None"
    unfolding well_labelled_def by blast+
  obtain s' where run: "assignIndex g root s = Some s'"
    using assignIndex_returns by blast
  then have loop:
    "while_option (\<lambda>s. index_queue s \<noteq> []) (assignIndex_step g) ?start = Some s'"
    by (simp add: assignIndex_def)
  from while_option_stop [OF loop] have empty: "index_queue s' = []"
    by simp
  have start: "?P ?start"
  proof (intro conjI)
    show "index_frame s ?start"
      using both0 by (auto simp: index_frame_def)
    show "index_reach g root s ?start"
      by (auto simp: index_reach_def pending_Cons pending_Nil reachable_def)
    have "newly_labelled s ?start = {}" "newly_left s ?start = {}"
      using both0 by (auto simp: newly_labelled_def newly_left_def)
    then show "index_count s ?start"
      by (simp add: index_count_def)
  qed
  have "?P s'"
    by (rule while_option_rule [where P = ?P, OF _ loop])
      (simp_all add: index_frame_step index_reach_step index_count_step start)
  then have frame: "index_frame s s'" and reach: "index_reach g root s s'"
    and count: "index_count s s'"
    by blast+
  from frame have
    kept: "\<And>x. index s x \<noteq> None \<Longrightarrow> index s' x = index s x \<and> index2 s' x = index2 s x" and
    waiting: "\<And>x. x \<in> set (leaves (index_queue s')) \<longleftrightarrow>
        index s' x \<noteq> None \<and> index s x = None \<and> index2 s' x = None" and
    left: "\<And>x. index2 s' x \<noteq> None \<Longrightarrow> index s' x \<noteq> None"
    unfolding index_frame_def by blast+
  have none_waiting: "index2 s' x \<noteq> None" if "index s' x \<noteq> None" "index s x = None" for x
    using waiting [of x] that empty by auto
  from reach empty have
    origin: "\<And>x. index s' x \<noteq> None \<Longrightarrow> index s x \<noteq> None \<or> x \<in> reachable g root" and
    covered: "\<And>x. index s' x \<noteq> None \<Longrightarrow> index s x = None \<Longrightarrow>
        successors g x \<subseteq> labelled s'" and
    root: "root \<in> labelled s'"
    unfolding index_reach_def by (auto simp: pending_Nil)
  have closed: "index s' y \<noteq> None" if "index s' x \<noteq> None" "y \<in> successors g x" for x y
  proof (cases "index s x")
    case None
    with covered [OF that(1)] that(2) show ?thesis
      by (auto simp: labelled_def)
  next
    case (Some i)
    with closed0 [of x y] that(2) have "index s y \<noteq> None" by simp
    with kept [of y] show ?thesis by simp
  qed
  have all: "m \<in> labelled s'" if "m \<in> reachable g root" for m
  proof -
    from that have "(root, m) \<in> (edges g)\<^sup>*"
      by (simp add: reachable_def)
    then show ?thesis
    proof (induction rule: rtrancl_induct)
      case base
      show ?case by (rule root)
    next
      case (step y z)
      then show ?case
        using closed [of y z] by (simp add: labelled_def edges_def)
    qed
  qed
  have lab: "labelled s' = labelled s \<union> reachable g root"
  proof
    show "labelled s' \<subseteq> labelled s \<union> reachable g root"
      using origin by (auto simp: labelled_def)
    show "labelled s \<union> reachable g root \<subseteq> labelled s'"
      using all kept by (auto simp: labelled_def)
  qed
  have both: "index2 s' m \<noteq> None \<longleftrightarrow> index s' m \<noteq> None" for m
  proof
    assume "index2 s' m \<noteq> None"
    then show "index s' m \<noteq> None" by (rule left)
  next
    assume m: "index s' m \<noteq> None"
    show "index2 s' m \<noteq> None"
    proof (cases "index s m")
      case None
      with m show ?thesis by (rule none_waiting)
    next
      case (Some i)
      with kept [of m] both0 [of m] show ?thesis by simp
    qed
  qed
  have wl: "well_labelled g s'"
    unfolding well_labelled_def using empty closed both by blast
  have "newly_labelled s s' = labelled s' - labelled s"
    by (auto simp: newly_labelled_def labelled_def)
  then have new1: "newly_labelled s s' = reachable g root - labelled s"
    unfolding lab by blast
  have "newly_left s s' = labelled s' - labelled s"
    using both by (auto simp: newly_left_def labelled_def)
  then have new2: "newly_left s s' = reachable g root - labelled s"
    unfolding lab by blast
  from count have counters:
    "nextFreeModuleIndex s' = nextFreeModuleIndex s + card (reachable g root - labelled s)"
    "nextFreeModuleIndex2 s' = nextFreeModuleIndex2 s + card (reachable g root - labelled s)"
    unfolding index_count_def new1 new2 by simp_all
  from root have "index s' root \<noteq> None"
    by (simp add: labelled_def)
  with empty have again: "assignIndex g root s' = Some s'"
    by (rule assignIndex_again)
  have old: "\<forall>m \<in> labelled s. index s' m = index s m \<and> index2 s' m = index2 s m"
    using kept by (simp add: labelled_def)
  from run wl lab old counters again show ?thesis
    by blast
qed

lemma example_index_run:
  "assignIndex example_graph 0 example_unlabelled = Some example_labelled"
  by (simp add: assignIndex_def while_option_unfold assignIndex_step_def
      assignIndexToDependencyBlock_def own_dependencies_def block_of_def example_graph_def
      example_unlabelled_def example_labelled_def)

theorem assignIndex_once_witness:
  "well_labelled example_graph example_unlabelled \<and>
   assignIndex example_graph 0 example_unlabelled = Some example_labelled \<and>
   well_labelled example_graph example_labelled \<and>
   labelled example_labelled = reachable example_graph 0 \<and>
   card (reachable example_graph 0) = 2 \<and>
   assignIndex example_graph 0 example_labelled = Some example_labelled"
proof -
  have fresh: "well_labelled example_graph example_unlabelled"
    by (simp add: well_labelled_def example_unlabelled_def)
  have none: "labelled example_unlabelled = {}"
    by (simp add: labelled_def example_unlabelled_def)
  from assignIndex_once [OF fresh, of 0] example_index_run
  have "well_labelled example_graph example_labelled"
    "labelled example_labelled = labelled example_unlabelled \<union> reachable example_graph 0"
    "nextFreeModuleIndex example_labelled = nextFreeModuleIndex example_unlabelled +
       card (reachable example_graph 0 - labelled example_unlabelled)"
    "assignIndex example_graph 0 example_labelled = Some example_labelled"
    by auto
  with none fresh example_index_run show ?thesis
    by (simp add: example_labelled_def example_unlabelled_def)
qed

end
